theory Spec2Isabelle
  imports Complex_Main "HOL-Library.AList" "HOL-Library.Extended_Nat"
begin

section \<open>Data model of the graph manager\<close>

text \<open>
  The development embeds \<^verbatim>\<open>backend/src/core/graph_manager.py\<close>. Python floats are
  modelled as reals, \<^verbatim>\<open>datetime\<close> values as a real number of seconds, dictionaries as
  association lists in insertion order (keys pairwise distinct, as in every Python
  dictionary), and Python sets as lists of their elements. The order in which CPython
  iterates a set is not fixed by the language; every function that iterates a set takes
  the iteration order as a parameter \<open>it\<close>, of which only \<open>iter_ok\<close> is known.
\<close>

type_synonym node_id = string
type_synonym attrs = "(string \<times> string) list"
type_synonym 'v dict = "(node_id \<times> 'v) list"

record edge =
  source :: node_id
  target :: node_id
  edge_attrs :: attrs
  weight :: "real option"

text \<open>
  An undirected \<^verbatim>\<open>networkx.Graph\<close> as \<^verbatim>\<open>read_graphml\<close> delivers it for the files
  LightRAG writes: nodes in insertion order with string-valued attributes, edges with
  string-valued attributes and an optional numeric weight.
\<close>

record graph =
  nodes :: "(node_id \<times> attrs) list"
  edges :: "edge list"

definition empty_graph :: graph where
  "empty_graph = \<lparr>nodes = [], edges = []\<rparr>"

definition node_ids :: "graph \<Rightarrow> node_id list" where
  "node_ids G = map fst (nodes G)"

definition number_of_nodes :: "graph \<Rightarrow> nat" where
  "number_of_nodes G = length (nodes G)"

definition wf_graph :: "graph \<Rightarrow> bool" where
  "wf_graph G \<longleftrightarrow>
     distinct (node_ids G) \<and>
     list_all (\<lambda>e. source e \<in> set (node_ids G) \<and> target e \<in> set (node_ids G)) (edges G)"

record settings =
  MAX_GRAPH_NODES :: int
  MAX_HOPS :: int
  TEMPORAL_DECAY_RATE :: real
  ENTITY_FREQUENCY_WEIGHT :: real
  RECENCY_WEIGHT :: real
  CENTRALITY_WEIGHT :: real
  FOCAL_WEIGHT :: real

definition default_settings :: settings where
  "default_settings =
     \<lparr>MAX_GRAPH_NODES = 100, MAX_HOPS = 2, TEMPORAL_DECAY_RATE = 95 / 100,
      ENTITY_FREQUENCY_WEIGHT = 3 / 10, RECENCY_WEIGHT = 2 / 10,
      CENTRALITY_WEIGHT = 3 / 10, FOCAL_WEIGHT = 2 / 10\<rparr>"

record metadata =
  md_id :: node_id
  md_label :: string
  md_type :: string
  md_description :: string

record manager =
  cfg :: settings
  graph_path :: string
  graph :: graph
  label_index :: "(string \<times> node_id list) list"
  node_metadata :: "metadata dict"
  entity_frequency :: "real dict"
  entity_last_seen :: "real dict"
  total_queries :: nat
  response_times :: "real list"
  last_entities :: "node_id list"
  last_query :: "string option"
  last_response :: "string option"
  centrality :: "real dict"

definition iter_ok :: "(node_id list \<Rightarrow> node_id list) \<Rightarrow> bool" where
  "iter_ok it \<longleftrightarrow> (\<forall>xs. set (it xs) = set xs \<and> distinct (it xs))"

definition dict_get :: "'v dict \<Rightarrow> node_id \<Rightarrow> 'v \<Rightarrow> 'v" where
  "dict_get d k dflt = (case map_of d k of None \<Rightarrow> dflt | Some v \<Rightarrow> v)"

section \<open>Conversation context\<close>

definition EPSILON :: real where
  "EPSILON = 1 / 10000"

text \<open>
  One iteration of the loop of \<^verbatim>\<open>apply_temporal_decay\<close>:
  \<^verbatim>\<open>d[k] *= rate; if d[k] < 1e-4: del d[k]\<close>. Reading a missing key of the
  \<^verbatim>\<open>defaultdict(float)\<close> gives 0.0.
\<close>

definition decay_entry :: "real \<Rightarrow> node_id \<Rightarrow> real dict \<Rightarrow> real dict" where
  "decay_entry rate k d =
     (let d1 = AList.update k (dict_get d k 0 * rate) d
      in if dict_get d1 k 0 < EPSILON then AList.delete k d1 else d1)"

fun decay_loop :: "real \<Rightarrow> node_id list \<Rightarrow> real dict \<Rightarrow> real dict" where
  "decay_loop rate [] d = d"
| "decay_loop rate (k # ks) d = decay_loop rate ks (decay_entry rate k d)"

definition apply_temporal_decay :: "manager \<Rightarrow> manager" where
  "apply_temporal_decay s =
     (if entity_frequency s = [] then s
      else s\<lparr>entity_frequency :=
             decay_loop (TEMPORAL_DECAY_RATE (cfg s)) (map fst (entity_frequency s))
               (entity_frequency s)\<rparr>)"

text \<open>
  The loop of \<^verbatim>\<open>update_conversation_context\<close> over the set of entities:
  \<^verbatim>\<open>entity_frequency[e] += 1.0; entity_last_seen[e] = now\<close>.
\<close>

fun mention_loop :: "real \<Rightarrow> node_id list \<Rightarrow> manager \<Rightarrow> manager" where
  "mention_loop now [] s = s"
| "mention_loop now (e # es) s =
     mention_loop now es
       (s\<lparr>entity_frequency := AList.update e (dict_get (entity_frequency s) e 0 + 1)
                                 (entity_frequency s),
          entity_last_seen := AList.update e now (entity_last_seen s)\<rparr>)"

definition update_conversation_context ::
  "(node_id list \<Rightarrow> node_id list) \<Rightarrow> real \<Rightarrow> manager \<Rightarrow> string \<Rightarrow> string \<Rightarrow> node_id list \<Rightarrow> real
     \<Rightarrow> manager" where
  "update_conversation_context it now s query response entities response_time =
     (let s1 = apply_temporal_decay s;
          s2 = mention_loop now (it entities) s1
      in s2\<lparr>last_entities := entities, last_query := Some query,
            last_response := Some response, total_queries := total_queries s2 + 1,
            response_times := response_times s2 @ [response_time]\<rparr>)"

section \<open>Graph store: loading, indices, centrality\<close>

datatype error =
    GraphMLError
  | PowerIterationFailedConvergence
  | NetworkXNoPath
  | NodeNotFound
  | StopIteration
  | OSError

text \<open>
  \<^verbatim>\<open>str.lower\<close> and \<^verbatim>\<open>str.upper\<close> on the ASCII letters; other characters are
  left as they are.
\<close>

definition lower_char :: "char \<Rightarrow> char" where
  "lower_char c =
     (let n = (of_char c :: nat) in if 65 \<le> n \<and> n \<le> 90 then char_of (n + 32) else c)"

definition upper_char :: "char \<Rightarrow> char" where
  "upper_char c =
     (let n = (of_char c :: nat) in if 97 \<le> n \<and> n \<le> 122 then char_of (n - 32) else c)"

definition lower :: "string \<Rightarrow> string" where
  "lower = map lower_char"

definition upper :: "string \<Rightarrow> string" where
  "upper = map upper_char"

text \<open>
  \<^verbatim>\<open>data.get(key) or rest\<close>: a missing attribute and an empty string are both falsy.
\<close>

definition attr_or :: "attrs \<Rightarrow> string \<Rightarrow> string \<Rightarrow> string" where
  "attr_or data key rest =
     (case map_of data key of None \<Rightarrow> rest | Some v \<Rightarrow> if v = [] then rest else v)"

definition resolve_label :: "node_id \<Rightarrow> attrs \<Rightarrow> string" where
  "resolve_label node_id data =
     attr_or data ''name'' (attr_or data ''label'' (attr_or data ''title'' node_id))"

definition set_add :: "'a \<Rightarrow> 'a list \<Rightarrow> 'a list" where
  "set_add x S = (if x \<in> set S then S else S @ [x])"

definition set_update :: "'a list \<Rightarrow> 'a list \<Rightarrow> 'a list" where
  "set_update S xs = fold set_add xs S"

fun index_loop :: "(node_id \<times> attrs) list \<Rightarrow> manager \<Rightarrow> manager" where
  "index_loop [] s = s"
| "index_loop ((node_id, data) # rest) s =
     (let label = resolve_label node_id data;
          lowered = lower label
      in index_loop rest
           (s\<lparr>label_index :=
                 AList.update lowered (set_add node_id (dict_get (label_index s) lowered []))
                   (label_index s),
              node_metadata :=
                 AList.update node_id
                   \<lparr>md_id = node_id, md_label = label,
                    md_type = attr_or data ''entity_type'' (attr_or data ''type'' ''ENTITY''),
                    md_description = attr_or data ''description'' (attr_or data ''summary'' [])\<rparr>
                   (node_metadata s)\<rparr>))"

definition build_indices :: "manager \<Rightarrow> manager" where
  "build_indices s = index_loop (nodes (graph s)) (s\<lparr>label_index := [], node_metadata := []\<rparr>)"

text \<open>
  \<^verbatim>\<open>networkx.degree_centrality\<close>: every node gets 1 in a graph of at most one node,
  and its degree divided by \<open>n - 1\<close> otherwise; a self-loop counts twice.
\<close>

definition degree :: "graph \<Rightarrow> node_id \<Rightarrow> nat" where
  "degree G n =
     length (filter (\<lambda>e. source e = n) (edges G)) + length (filter (\<lambda>e. target e = n) (edges G))"

definition degree_centrality :: "graph \<Rightarrow> real dict" where
  "degree_centrality G =
     (if number_of_nodes G \<le> 1 then map (\<lambda>n. (n, 1)) (node_ids G)
      else map (\<lambda>n. (n, real (degree G n) * (1 / (real (number_of_nodes G) - 1)))) (node_ids G))"

text \<open>
  \<^verbatim>\<open>networkx.pagerank\<close> is a floating-point power iteration of the library; it is a
  parameter \<open>pagerank\<close> of the model, which returns the scores or the exception raised.
\<close>

definition compute_centrality :: "(graph \<Rightarrow> error + real dict) \<Rightarrow> manager \<Rightarrow> manager" where
  "compute_centrality pagerank s =
     (if number_of_nodes (graph s) = 0 then s\<lparr>centrality := []\<rparr>
      else case pagerank (graph s) of
             Inr c \<Rightarrow> s\<lparr>centrality := c\<rparr>
           | Inl _ \<Rightarrow> s\<lparr>centrality := degree_centrality (graph s)\<rparr>)"

text \<open>
  The file system is a parameter \<open>fs\<close>, which tells for a path what the two calls of
  \<open>reload_graph\<close> do: \<^verbatim>\<open>graph_path.exists()\<close> raises (\<open>ExistsRaises\<close>; pathlib passes
  on an \<^verbatim>\<open>OSError\<close> other than the few that mean "not there"), returns false
  (\<open>Missing\<close>), or returns true, and then \<^verbatim>\<open>read_graphml\<close> raises (\<open>ReadRaises\<close>) or
  returns a graph (\<open>Readable\<close>).
\<close>

datatype file_outcome =
    ExistsRaises error
  | Missing
  | ReadRaises error
  | Readable graph

text \<open>
  The existence check stands outside the \<^verbatim>\<open>try\<close>, the read inside it. The result of
  \<open>reload_graph\<close> is \<open>Inl e\<close> when the exception \<open>e\<close> leaves the method; the object is
  then as it was.
\<close>

definition reload_graph ::
  "(string \<Rightarrow> file_outcome) \<Rightarrow> (graph \<Rightarrow> error + real dict) \<Rightarrow> manager
     \<Rightarrow> error + manager" where
  "reload_graph fs pagerank s =
     (case fs (graph_path s) of
        ExistsRaises e \<Rightarrow> Inl e
      | Readable G \<Rightarrow> Inr (compute_centrality pagerank (build_indices (s\<lparr>graph := G\<rparr>)))
      | ReadRaises _ \<Rightarrow>
          Inr (compute_centrality pagerank (build_indices (s\<lparr>graph := empty_graph\<rparr>)))
      | Missing \<Rightarrow>
          Inr (compute_centrality pagerank (build_indices (s\<lparr>graph := empty_graph\<rparr>))))"

definition init ::
  "(string \<Rightarrow> file_outcome) \<Rightarrow> (graph \<Rightarrow> error + real dict) \<Rightarrow> string \<Rightarrow> settings
     \<Rightarrow> error + manager" where
  "init fs pagerank path st =
     reload_graph fs pagerank
       \<lparr>cfg = st, graph_path = path, graph = empty_graph, label_index = [],
        node_metadata = [], entity_frequency = [], entity_last_seen = [], total_queries = 0,
        response_times = [], last_entities = [], last_query = None, last_response = None,
        centrality = []\<rparr>"

text \<open>
  The states of a manager object: built by the constructor, then changed only by the
  three mutating methods.
\<close>

inductive reachable :: "manager \<Rightarrow> bool" where
  reach_init: "init fs pagerank path st = Inr s \<Longrightarrow> reachable s"
| reach_reload: "reachable s \<Longrightarrow> reload_graph fs pagerank s = Inr s' \<Longrightarrow> reachable s'"
| reach_decay: "reachable s \<Longrightarrow> reachable (apply_temporal_decay s)"
| reach_update:
    "reachable s \<Longrightarrow> iter_ok it \<Longrightarrow>
     reachable (update_conversation_context it now s query response entities response_time)"

section \<open>Importance scoring\<close>

text \<open>
  \<^verbatim>\<open>datetime.utcnow()\<close> reads the clock; the reading is the parameter \<open>now\<close>, in
  seconds.
\<close>

definition recency_score :: "manager \<Rightarrow> real \<Rightarrow> node_id \<Rightarrow> real" where
  "recency_score s now node_id =
     (case map_of (entity_last_seen s) node_id of
        None \<Rightarrow> 0
      | Some timestamp \<Rightarrow>
          (let delta_hours = max ((now - timestamp) / 3600) 0;
               decay_rate = - ln (max (TEMPORAL_DECAY_RATE (cfg s)) (1 / 1000000))
           in exp (- decay_rate * delta_hours)))"

fun max_list :: "real list \<Rightarrow> real" where
  "max_list [] = 0"
| "max_list (x # xs) = fold max xs x"

definition calculate_node_importance :: "manager \<Rightarrow> real \<Rightarrow> node_id \<Rightarrow> node_id list \<Rightarrow> real" where
  "calculate_node_importance s now node_id focal_entities =
     (let freq = dict_get (entity_frequency s) node_id 0;
          max_freq = (if entity_frequency s \<noteq> [] then max_list (map snd (entity_frequency s))
                      else 1);
          freq_score = (if max_freq \<noteq> 0 then freq / max_freq else 0);
          recency = recency_score s now node_id;
          centrality_score = dict_get (centrality s) node_id 0;
          focal_score = (if node_id \<in> set focal_entities then 1 else 0)
      in ENTITY_FREQUENCY_WEIGHT (cfg s) * freq_score
         + RECENCY_WEIGHT (cfg s) * recency
         + CENTRALITY_WEIGHT (cfg s) * centrality_score
         + FOCAL_WEIGHT (cfg s) * focal_score)"

section \<open>Graph algorithms of the library\<close>

text \<open>
  The functions of networkx that the manager calls, on the undirected graph above:
  breadth-first neighbourhoods, induced subgraphs, connected components in the order of
  the graph's nodes, and shortest paths.
\<close>

definition adj :: "graph \<Rightarrow> node_id \<Rightarrow> node_id \<Rightarrow> bool" where
  "adj G u v \<longleftrightarrow>
     list_ex (\<lambda>e. (source e = u \<and> target e = v) \<or> (source e = v \<and> target e = u)) (edges G)"

definition contains :: "graph \<Rightarrow> node_id \<Rightarrow> bool" where
  "contains G n \<longleftrightarrow> n \<in> set (node_ids G)"

definition expand :: "graph \<Rightarrow> node_id list \<Rightarrow> node_id list" where
  "expand G S = S @ filter (\<lambda>u. u \<notin> set S \<and> list_ex (\<lambda>v. adj G v u) S) (node_ids G)"

text \<open>
  The nodes of \<^verbatim>\<open>ego_graph(G, v, radius)\<close>: everything within \<open>radius\<close> edges of \<open>v\<close>.
  The builder passes the integer \<open>max_hops\<close>; a negative radius is taken as 0.
\<close>

fun ego_nodes :: "graph \<Rightarrow> node_id \<Rightarrow> nat \<Rightarrow> node_id list" where
  "ego_nodes G v 0 = [v]"
| "ego_nodes G v (Suc r) = expand G (ego_nodes G v r)"

definition plain_bfs :: "graph \<Rightarrow> node_id \<Rightarrow> node_id list" where
  "plain_bfs G v = ego_nodes G v (number_of_nodes G)"

definition subgraph :: "graph \<Rightarrow> node_id list \<Rightarrow> graph" where
  "subgraph G S =
     \<lparr>nodes = filter (\<lambda>(n, _). n \<in> set S) (nodes G),
      edges = filter (\<lambda>e. source e \<in> set S \<and> target e \<in> set S) (edges G)\<rparr>"

fun components_loop :: "graph \<Rightarrow> node_id list \<Rightarrow> node_id list \<Rightarrow> node_id list list" where
  "components_loop G [] seen = []"
| "components_loop G (v # vs) seen =
     (if v \<in> set seen then components_loop G vs seen
      else (let c = plain_bfs G v in c # components_loop G vs (seen @ c)))"

definition connected_components :: "graph \<Rightarrow> node_id list list" where
  "connected_components G = components_loop G (node_ids G) []"

fun find_dist :: "graph \<Rightarrow> node_id \<Rightarrow> node_id \<Rightarrow> nat \<Rightarrow> nat \<Rightarrow> nat option" where
  "find_dist G src dst 0 k = (if dst \<in> set (ego_nodes G src k) then Some k else None)"
| "find_dist G src dst (Suc fuel) k =
     (if dst \<in> set (ego_nodes G src k) then Some k else find_dist G src dst fuel (Suc k))"

definition shortest_path_length :: "graph \<Rightarrow> node_id \<Rightarrow> node_id \<Rightarrow> error + nat" where
  "shortest_path_length G src dst =
     (if \<not> contains G src \<or> \<not> contains G dst then Inl NodeNotFound
      else case find_dist G src dst (number_of_nodes G) 0 of
             None \<Rightarrow> Inl NetworkXNoPath
           | Some d \<Rightarrow> Inr d)"

text \<open>
  A path from \<open>src\<close> to a node \<open>v\<close> at distance \<open>k\<close>, built from \<open>v\<close> backwards through a
  neighbour one step closer to \<open>src\<close>.
\<close>

fun path_to :: "graph \<Rightarrow> node_id \<Rightarrow> nat \<Rightarrow> node_id \<Rightarrow> node_id list" where
  "path_to G src 0 v = [v]"
| "path_to G src (Suc k) v =
     (case find (\<lambda>u. adj G u v) (ego_nodes G src k) of
        None \<Rightarrow> [v]
      | Some u \<Rightarrow> path_to G src k u @ [v])"

definition shortest_path :: "graph \<Rightarrow> node_id \<Rightarrow> node_id \<Rightarrow> error + node_id list" where
  "shortest_path G src dst =
     (case shortest_path_length G src dst of
        Inl e \<Rightarrow> Inl e
      | Inr d \<Rightarrow> Inr (path_to G src d dst))"

section \<open>Subgraph builder\<close>

definition shortest_path_safe :: "manager \<Rightarrow> node_id \<Rightarrow> node_id \<Rightarrow> node_id list" where
  "shortest_path_safe s src dst =
     (case shortest_path (graph s) src dst of Inr p \<Rightarrow> p | Inl _ \<Rightarrow> [src])"

definition shortest_path_length_safe :: "manager \<Rightarrow> node_id \<Rightarrow> node_id \<Rightarrow> enat" where
  "shortest_path_length_safe s src dst =
     (case shortest_path_length (graph s) src dst of Inr d \<Rightarrow> enat d | Inl _ \<Rightarrow> \<infinity>)"

text \<open>
  \<^verbatim>\<open>min(xs, key=f)\<close> and \<^verbatim>\<open>max(xs, key=f)\<close> on a non-empty list return the first
  element with the least, respectively greatest, key.
\<close>

fun min_by :: "('a \<Rightarrow> 'b::linorder) \<Rightarrow> 'a \<Rightarrow> 'a list \<Rightarrow> 'a" where
  "min_by f b [] = b"
| "min_by f b (x # xs) = min_by f (if f x < f b then x else b) xs"

fun max_by :: "('a \<Rightarrow> 'b::linorder) \<Rightarrow> 'a \<Rightarrow> 'a list \<Rightarrow> 'a" where
  "max_by f b [] = b"
| "max_by f b (x # xs) = max_by f (if f b < f x then x else b) xs"

text \<open>
  The inner loop of \<^verbatim>\<open>_ensure_connectivity\<close>: add the nodes of the path one by one
  and stop the whole repair (second component \<open>True\<close>) once the selection has reached
  \<open>max_nodes\<close> elements.
\<close>

fun add_path :: "node_id list \<Rightarrow> node_id list \<Rightarrow> int \<Rightarrow> node_id list \<times> bool" where
  "add_path [] sel max_nodes = (sel, False)"
| "add_path (p # ps) sel max_nodes =
     (let sel' = set_add p sel
      in if int (length sel') \<ge> max_nodes then (sel', True) else add_path ps sel' max_nodes)"

fun repair_loop ::
  "(node_id list \<Rightarrow> node_id list) \<Rightarrow> manager \<Rightarrow> node_id \<Rightarrow> node_id list \<Rightarrow> node_id list \<Rightarrow> int
     \<Rightarrow> node_id list list \<Rightarrow> node_id list \<Rightarrow> error + node_id list" where
  "repair_loop it s f fs base max_nodes [] sel = Inr sel"
| "repair_loop it s f fs base max_nodes (component # rest) sel =
     (if set component = set base then repair_loop it s f fs base max_nodes rest sel
      else case it component of
             [] \<Rightarrow> Inl StopIteration
           | src # _ \<Rightarrow>
               (let tgt = min_by (\<lambda>node. shortest_path_length_safe s src node) f fs;
                    path = shortest_path_safe s src tgt
                in case add_path path sel max_nodes of
                     (sel', True) \<Rightarrow> Inr sel'
                   | (sel', False) \<Rightarrow> repair_loop it s f fs base max_nodes rest sel'))"

text \<open>
  \<^verbatim>\<open>_ensure_connectivity\<close> mutates the selection in place; the model returns the new
  selection. On an undirected graph \<^verbatim>\<open>connected_components\<close> raises nothing, so the
  handler of \<^verbatim>\<open>NetworkXError\<close> is never entered, and \<^verbatim>\<open>min\<close> over the non-empty list
  of focal nodes never returns \<^verbatim>\<open>None\<close>.
\<close>

definition ensure_connectivity ::
  "(node_id list \<Rightarrow> node_id list) \<Rightarrow> manager \<Rightarrow> graph \<Rightarrow> node_id list \<Rightarrow> node_id list \<Rightarrow> int
     \<Rightarrow> error + node_id list" where
  "ensure_connectivity it s sub selected_nodes focal_entities max_nodes =
     (if focal_entities = [] then Inr selected_nodes
      else let components = connected_components sub
           in if length components \<le> 1 then Inr selected_nodes
              else case filter (contains (graph s)) (it focal_entities) of
                     [] \<Rightarrow> Inr selected_nodes
                   | f # fs \<Rightarrow>
                       (case components of
                          [] \<Rightarrow> Inr selected_nodes
                        | c # cs \<Rightarrow>
                            (let base_component =
                                   max_by (\<lambda>comp. length (filter (\<lambda>n. n \<in> set focal_entities) comp))
                                     c cs
                             in repair_loop it s f fs base_component max_nodes components
                                  selected_nodes)))"

text \<open>
  \<^verbatim>\<open>x or dflt\<close> for an optional integer, and the slice \<^verbatim>\<open>xs[:n]\<close> for any integer.
\<close>

definition py_or :: "int option \<Rightarrow> int \<Rightarrow> int" where
  "py_or x dflt = (case x of None \<Rightarrow> dflt | Some k \<Rightarrow> if k = 0 then dflt else k)"

definition py_take :: "int \<Rightarrow> 'a list \<Rightarrow> 'a list" where
  "py_take n xs = (if 0 \<le> n then take (nat n) xs else take (length xs - nat (- n)) xs)"

fun candidate_loop :: "graph \<Rightarrow> nat \<Rightarrow> node_id list \<Rightarrow> node_id list \<Rightarrow> node_id list" where
  "candidate_loop G r [] cand = cand"
| "candidate_loop G r (entity # rest) cand =
     (if \<not> contains G entity then candidate_loop G r rest cand
      else candidate_loop G r rest (set_update cand (ego_nodes G entity r)))"

text \<open>
  Scoring reads the clock once per node: \<open>clk i\<close> is the reading at the \<open>i\<close>-th call.
\<close>

fun score_loop ::
  "manager \<Rightarrow> (nat \<Rightarrow> real) \<Rightarrow> nat \<Rightarrow> node_id list \<Rightarrow> node_id list \<Rightarrow> (node_id \<times> real) list" where
  "score_loop s clk i focal_entities [] = []"
| "score_loop s clk i focal_entities (node # rest) =
     (node, calculate_node_importance s (clk i) node focal_entities)
       # score_loop s clk (Suc i) focal_entities rest"

text \<open>
  The body of \<^verbatim>\<open>build_contextual_subgraph\<close> up to the forced inclusion of the focal
  entities: the selection handed to the connectivity repair.
\<close>

definition select_nodes ::
  "(node_id list \<Rightarrow> node_id list) \<Rightarrow> (nat \<Rightarrow> real) \<Rightarrow> manager \<Rightarrow> node_id list \<Rightarrow> int \<Rightarrow> int
     \<Rightarrow> node_id list" where
  "select_nodes it clk s focal_entities max_hops max_nodes =
     (let cand0 = candidate_loop (graph s) (nat max_hops) (it focal_entities) [];
          candidate_nodes =
            (if cand0 = []
             then set_update []
                    (py_take max_nodes
                       (sort_key (\<lambda>node. - dict_get (centrality s) node 0) (node_ids (graph s))))
             else cand0);
          scored = score_loop s clk 0 focal_entities (it candidate_nodes);
          ranked = sort_key (\<lambda>item. - snd item) scored;
          selected0 = set_update [] (map fst (py_take max_nodes ranked))
      in if focal_entities \<noteq> [] then set_update selected0 (it focal_entities) else selected0)"

definition build_contextual_subgraph ::
  "(node_id list \<Rightarrow> node_id list) \<Rightarrow> (nat \<Rightarrow> real) \<Rightarrow> manager \<Rightarrow> node_id list \<Rightarrow> int option
     \<Rightarrow> int option \<Rightarrow> error + graph" where
  "build_contextual_subgraph it clk s focal_entities max_hops_arg max_nodes_arg =
     (if number_of_nodes (graph s) = 0 then Inr empty_graph
      else
        let max_hops = py_or max_hops_arg (MAX_HOPS (cfg s));
            max_nodes = py_or max_nodes_arg (MAX_GRAPH_NODES (cfg s));
            selected_nodes = select_nodes it clk s focal_entities max_hops max_nodes;
            sub = subgraph (graph s) selected_nodes
        in case ensure_connectivity it s sub selected_nodes focal_entities max_nodes of
             Inl e \<Rightarrow> Inl e
           | Inr final_nodes \<Rightarrow> Inr (subgraph (graph s) final_nodes))"

section \<open>Export for visualisation\<close>

definition ENTITY_COLORS :: "(string \<times> string) list" where
  "ENTITY_COLORS =
     [(''PERSON'', ''#1f77b4''), (''ORG'', ''#ff7f0e''), (''EVENT'', ''#2ca02c''),
      (''PLACE'', ''#9467bd''), (''WORK'', ''#8c564b''), (''DATE'', ''#17becf'')]"

record vis_node =
  vn_id :: node_id
  vn_label :: string
  vn_type :: string
  vn_description :: string
  vn_frequency :: real
  is_focal :: bool
  vn_size :: real
  vn_color :: string
  vn_centrality :: real

record vis_link =
  vl_source :: node_id
  vl_target :: node_id
  vl_relationship :: string
  vl_weight :: real
  vl_keywords :: string

record vis_payload =
  vis_nodes :: "vis_node list"
  vis_links :: "vis_link list"

text \<open>
  First loop of \<^verbatim>\<open>graph_to_vis_format\<close>: the importance of every node and the
  greatest importance seen, starting from 0.0.
\<close>

fun importance_loop ::
  "manager \<Rightarrow> (nat \<Rightarrow> real) \<Rightarrow> nat \<Rightarrow> node_id list \<Rightarrow> node_id list \<Rightarrow> real dict \<times> real
     \<Rightarrow> real dict \<times> real" where
  "importance_loop s clk i focal_entities [] acc = acc"
| "importance_loop s clk i focal_entities (node # rest) (cache, max_importance) =
     (let importance = calculate_node_importance s (clk i) node focal_entities
      in importance_loop s clk (Suc i) focal_entities rest
           (AList.update node importance cache, max max_importance importance))"

definition node_payload ::
  "manager \<Rightarrow> node_id list \<Rightarrow> real dict \<Rightarrow> real \<Rightarrow> node_id \<times> attrs \<Rightarrow> vis_node" where
  "node_payload s focal_entities cache scaling nd =
     (case nd of (node_id, data) \<Rightarrow>
        (let meta = map_of (node_metadata s) node_id;
             importance = dict_get cache node_id 0;
             size = 8 + (importance / scaling) * 20;
             node_type = (case meta of None \<Rightarrow> ''ENTITY'' | Some m \<Rightarrow> md_type m);
             color = (case map_of ENTITY_COLORS (upper node_type) of
                        None \<Rightarrow> ''#4a5568'' | Some c \<Rightarrow> c)
         in \<lparr>vn_id = node_id,
             vn_label = (case meta of
                           None \<Rightarrow> resolve_label node_id data
                         | Some m \<Rightarrow> if md_label m = [] then resolve_label node_id data
                                     else md_label m),
             vn_type = node_type,
             vn_description = (case meta of None \<Rightarrow> [] | Some m \<Rightarrow> md_description m),
             vn_frequency = dict_get (entity_frequency s) node_id 0,
             is_focal = (node_id \<in> set focal_entities),
             vn_size = size,
             vn_color = color,
             vn_centrality = dict_get (centrality s) node_id 0\<rparr>))"

definition link_payload :: "edge \<Rightarrow> vis_link" where
  "link_payload e =
     \<lparr>vl_source = source e, vl_target = target e,
      vl_relationship =
        attr_or (edge_attrs e) ''relation''
          (attr_or (edge_attrs e) ''label'' (attr_or (edge_attrs e) ''type'' ''related'')),
      vl_weight = (case weight e of None \<Rightarrow> 1 | Some w \<Rightarrow> w),
      vl_keywords = (case map_of (edge_attrs e) ''keywords'' of None \<Rightarrow> [] | Some k \<Rightarrow> k)\<rparr>"

definition graph_to_vis_format ::
  "(nat \<Rightarrow> real) \<Rightarrow> manager \<Rightarrow> graph \<Rightarrow> node_id list \<Rightarrow> vis_payload" where
  "graph_to_vis_format clk s sub focal_entities =
     (case importance_loop s clk 0 focal_entities (node_ids sub) ([], 0) of
        (cache, max_importance) \<Rightarrow>
          (let scaling = (if max_importance = 0 then 1 else max_importance)
           in \<lparr>vis_nodes = map (node_payload s focal_entities cache scaling) (nodes sub),
               vis_links = map link_payload (edges sub)\<rparr>))"

section \<open>Statistics\<close>

record graph_stats =
  gs_total_queries :: nat
  unique_entities :: nat
  most_discussed :: "(string \<times> int) list"
  avg_response_time :: real
  graph_node_count :: nat
  graph_edge_count :: nat

text \<open>\<^verbatim>\<open>int(x)\<close> on a float truncates towards zero.\<close>

definition py_int :: "real \<Rightarrow> int" where
  "py_int x = (if 0 \<le> x then \<lfloor>x\<rfloor> else \<lceil>x\<rceil>)"

definition get_graph_stats :: "manager \<Rightarrow> graph_stats" where
  "get_graph_stats s =
     \<lparr>gs_total_queries = total_queries s,
      unique_entities = length (entity_frequency s),
      most_discussed =
        take 5
          (sort_key (\<lambda>item. - snd item)
             (map (\<lambda>(node, freq).
                     ((case map_of (node_metadata s) node of None \<Rightarrow> node | Some m \<Rightarrow> md_label m),
                      py_int freq))
                (entity_frequency s))),
      avg_response_time =
        (if response_times s \<noteq> [] then sum_list (response_times s) / real (length (response_times s))
         else 0),
      graph_node_count = number_of_nodes (graph s),
      graph_edge_count = length (edges (graph s))\<rparr>"

section \<open>Auxiliary notions and an example instance\<close>

definition freq_inv :: "real dict \<Rightarrow> bool" where
  "freq_inv d \<longleftrightarrow> list_all (\<lambda>(k, v). EPSILON \<le> v) d"

text \<open>A walk: consecutive nodes are adjacent.\<close>

fun chain :: "graph \<Rightarrow> node_id list \<Rightarrow> bool" where
  "chain G [] = True"
| "chain G [x] = True"
| "chain G (x # y # zs) = (adj G x y \<and> chain G (y # zs))"

text \<open>
  Connectivity as a relation: the nodes joined to \<open>v\<close> by a walk form the component
  of \<open>v\<close>.
\<close>

definition adj_rel :: "graph \<Rightarrow> (node_id \<times> node_id) set" where
  "adj_rel G = {(u, v). adj G u v}"

definition component_of :: "graph \<Rightarrow> node_id \<Rightarrow> node_id set" where
  "component_of G v = {u. (v, u) \<in> (adj_rel G)\<^sup>*}"

text \<open>
  A small instance used to run the definitions: the graph with the nodes A, B, C, D and
  the edges A-B and C-D, loaded by a manager whose centrality falls back to the degree,
  and the state of that manager after one turn that mentions A.
\<close>

definition ex_graph :: graph where
  "ex_graph =
     \<lparr>nodes = [(''A'', []), (''B'', []), (''C'', []), (''D'', [])],
      edges = [\<lparr>source = ''A'', target = ''B'', edge_attrs = [], weight = Some 1\<rparr>,
               \<lparr>source = ''C'', target = ''D'', edge_attrs = [], weight = Some 1\<rparr>]\<rparr>"

definition ex_fs :: "string \<Rightarrow> file_outcome" where
  "ex_fs path = (if path = ''kg.graphml'' then Readable ex_graph else Missing)"

definition ex_pagerank :: "graph \<Rightarrow> error + real dict" where
  "ex_pagerank G = Inl PowerIterationFailedConvergence"

definition ex_manager :: manager where
  "ex_manager = projr (init ex_fs ex_pagerank ''kg.graphml'' default_settings)"

definition ex_turn :: manager where
  "ex_turn = update_conversation_context remdups 0 ex_manager ''who is A'' ''A is A'' [''A''] 1"

definition ex_clock :: "nat \<Rightarrow> real" where
  "ex_clock i = 0"

text \<open>
  A file system where nothing exists and where the existence check of a path of more
  than 255 characters raises, as it does for a file name of that length.
\<close>

definition long_name_fs :: "string \<Rightarrow> file_outcome" where
  "long_name_fs path = (if 255 < length path then ExistsRaises OSError else Missing)"

definition ex_manager0 :: manager where
  "ex_manager0 = ex_manager\<lparr>cfg := default_settings\<lparr>MAX_GRAPH_NODES := 0\<rparr>\<rparr>"

section \<open>Properties of the conversation context\<close>

lemma iter_ok_remdups: "iter_ok remdups"
  by (simp add: iter_ok_def)

lemma ex_init:
  "init ex_fs ex_pagerank ''kg.graphml'' default_settings
     = Inr (projr (init ex_fs ex_pagerank ''kg.graphml'' default_settings))"
  by (simp add: init_def reload_graph_def ex_fs_def)

lemma reachable_ex_manager: "reachable ex_manager"
  unfolding ex_manager_def by (rule reach_init[OF ex_init])

lemma reachable_ex_turn: "reachable ex_turn"
  unfolding ex_turn_def by (rule reach_update[OF reachable_ex_manager iter_ok_remdups])

lemma ex_manager_freq: "entity_frequency ex_manager = []"
  by (simp add: ex_manager_def init_def reload_graph_def ex_fs_def ex_graph_def Let_def
      build_indices_def compute_centrality_def ex_pagerank_def number_of_nodes_def)

lemma ex_manager_cfg: "cfg ex_manager = default_settings"
  by (simp add: ex_manager_def init_def reload_graph_def ex_fs_def ex_graph_def Let_def
      build_indices_def compute_centrality_def ex_pagerank_def number_of_nodes_def)

lemma mention_loop_cfg: "cfg (mention_loop now es s) = cfg s"
  by (induction es arbitrary: s) simp_all

lemma ex_turn_freq: "entity_frequency ex_turn = [(''A'', 1)]"
  by (simp add: ex_turn_def update_conversation_context_def apply_temporal_decay_def
      ex_manager_freq Let_def dict_get_def)

lemma ex_turn_cfg: "cfg ex_turn = default_settings"
  by (simp add: ex_turn_def update_conversation_context_def apply_temporal_decay_def
      ex_manager_freq ex_manager_cfg Let_def mention_loop_cfg)

lemma dict_get_Some: "map_of d k = Some v \<Longrightarrow> dict_get d k x = v"
  by (simp add: dict_get_def)

lemma dict_get_None: "map_of d k = None \<Longrightarrow> dict_get d k x = x"
  by (simp add: dict_get_def)

lemma decay_entry_map_of:
  "map_of (decay_entry rate k d) k' =
     (if k' = k then (if dict_get d k 0 * rate < EPSILON then None else Some (dict_get d k 0 * rate))
      else map_of d k')"
  by (simp add: decay_entry_def Let_def dict_get_def update_conv' delete_conv')

lemma decay_entry_distinct:
  "distinct (map fst d) \<Longrightarrow> distinct (map fst (decay_entry rate k d))"
  by (simp add: decay_entry_def Let_def distinct_update distinct_delete)

lemma decay_loop_distinct:
  "distinct (map fst d) \<Longrightarrow> distinct (map fst (decay_loop rate ks d))"
  by (induction ks arbitrary: d) (simp_all add: decay_entry_distinct)

lemma decay_loop_map_of:
  "distinct ks \<Longrightarrow>
   map_of (decay_loop rate ks d) k =
     (if k \<in> set ks
      then (if dict_get d k 0 * rate < EPSILON then None else Some (dict_get d k 0 * rate))
      else map_of d k)"
proof (induction ks arbitrary: d)
  case Nil
  show ?case by simp
next
  case (Cons a ks)
  have dk: "distinct ks" and a: "a \<notin> set ks" using Cons.prems by auto
  have IH: "map_of (decay_loop rate ks (decay_entry rate a d)) k =
     (if k \<in> set ks
      then (if dict_get (decay_entry rate a d) k 0 * rate < EPSILON then None
            else Some (dict_get (decay_entry rate a d) k 0 * rate))
      else map_of (decay_entry rate a d) k)"
    by (rule Cons.IH[OF dk])
  show ?case
  proof (cases "k = a")
    case True
    then show ?thesis using a IH by (simp add: decay_entry_map_of)
  next
    case False
    then have "dict_get (decay_entry rate a d) k 0 = dict_get d k 0"
      by (simp add: dict_get_def decay_entry_map_of)
    then show ?thesis using False IH by (simp add: decay_entry_map_of)
  qed
qed

lemma freq_inv_iff:
  "distinct (map fst d) \<Longrightarrow> freq_inv d \<longleftrightarrow> (\<forall>k v. map_of d k = Some v \<longrightarrow> EPSILON \<le> v)"
  by (auto simp: freq_inv_def list_all_iff dest: map_of_SomeD)

lemma decay_loop_all_keys:
  assumes "distinct (map fst d)"
  shows "map_of (decay_loop rate (map fst d) d) k =
           (case map_of d k of
              None \<Rightarrow> None
            | Some v \<Rightarrow> if v * rate < EPSILON then None else Some (v * rate))"
proof (cases "map_of d k")
  case None
  then have "k \<notin> set (map fst d)" by (simp add: map_of_eq_None_iff)
  then show ?thesis using None by (simp add: decay_loop_map_of[OF assms])
next
  case (Some v)
  then have "k \<in> set (map fst d)" by (metis map_of_eq_None_iff option.distinct(1) set_map)
  then show ?thesis using Some by (simp add: decay_loop_map_of[OF assms] dict_get_def)
qed

lemma decay_loop_inv:
  assumes "distinct (map fst d)"
  shows "freq_inv (decay_loop rate (map fst d) d)"
  unfolding freq_inv_iff[OF decay_loop_distinct[OF assms]]
  by (auto simp: decay_loop_all_keys[OF assms] split: option.splits if_splits)

lemma apply_temporal_decay_wf:
  "distinct (map fst (entity_frequency s)) \<Longrightarrow>
   distinct (map fst (entity_frequency (apply_temporal_decay s)))"
  by (simp add: apply_temporal_decay_def decay_loop_distinct)

lemma apply_temporal_decay_inv:
  "distinct (map fst (entity_frequency s)) \<Longrightarrow> freq_inv (entity_frequency (apply_temporal_decay s))"
  by (simp add: apply_temporal_decay_def decay_loop_inv) (simp add: freq_inv_def)

lemma mention_loop_wf:
  "distinct (map fst (entity_frequency s)) \<Longrightarrow>
   distinct (map fst (entity_frequency (mention_loop now es s)))"
  by (induction es arbitrary: s) (simp_all add: distinct_update)

lemma freq_inv_update:
  "distinct (map fst d) \<Longrightarrow> freq_inv d \<Longrightarrow> EPSILON \<le> v \<Longrightarrow> freq_inv (AList.update k v d)"
  by (simp add: freq_inv_iff distinct_update update_conv')

lemma mention_loop_inv:
  "distinct (map fst (entity_frequency s)) \<Longrightarrow> freq_inv (entity_frequency s) \<Longrightarrow>
   freq_inv (entity_frequency (mention_loop now es s))"
proof (induction es arbitrary: s)
  case Nil
  then show ?case by simp
next
  case (Cons e es)
  have "EPSILON \<le> dict_get (entity_frequency s) e 0 + 1"
  proof (cases "map_of (entity_frequency s) e")
    case None
    then show ?thesis by (simp add: dict_get_def EPSILON_def)
  next
    case (Some v)
    then have "EPSILON \<le> v" using Cons.prems by (simp add: freq_inv_iff)
    then show ?thesis using Some by (simp add: dict_get_def)
  qed
  then show ?case using Cons.prems
    by (simp add: Cons.IH distinct_update freq_inv_update)
qed

lemma index_loop_frequency: "entity_frequency (index_loop ns s) = entity_frequency s"
  by (induction ns s rule: index_loop.induct) (simp_all add: Let_def)

lemma reload_graph_frequency:
  "reload_graph fs pagerank s = Inr s' \<Longrightarrow> entity_frequency s' = entity_frequency s"
  by (auto simp: reload_graph_def compute_centrality_def build_indices_def index_loop_frequency
      split: file_outcome.splits sum.splits if_splits)

lemma init_frequency: "init fs pagerank path st = Inr s \<Longrightarrow> entity_frequency s = []"
  by (auto simp: init_def dest: reload_graph_frequency)

lemma reachable_frequency:
  "reachable s \<Longrightarrow> distinct (map fst (entity_frequency s)) \<and> freq_inv (entity_frequency s)"
proof (induction rule: reachable.induct)
  case (reach_init fs pagerank path st s)
  then show ?case by (simp add: init_frequency freq_inv_def)
next
  case (reach_reload s fs pagerank s')
  then show ?case by (simp add: reload_graph_frequency)
next
  case (reach_decay s)
  then show ?case by (simp add: apply_temporal_decay_wf apply_temporal_decay_inv)
next
  case (reach_update s it now query response entities response_time)
  then show ?case
    by (simp add: update_conversation_context_def Let_def mention_loop_wf mention_loop_inv
        apply_temporal_decay_wf apply_temporal_decay_inv)
qed

text \<open>
  C10. In every state the manager can reach, each value stored in the entity-frequency
  map is at least the eviction threshold \<open>EPSILON\<close> = 1e-4, hence strictly positive.
  The states are those built by the constructor and changed by \<open>reload_graph\<close>,
  \<open>apply_temporal_decay\<close> and \<open>update_conversation_context\<close>; scoring, subgraph building,
  export and statistics read the map with \<^verbatim>\<open>.get\<close>, \<^verbatim>\<open>.values()\<close> and
  \<^verbatim>\<open>.items()\<close> only, which insert nothing into a \<^verbatim>\<open>defaultdict\<close>, and are
  functions of the state that return no new state.
\<close>

theorem frequency_invariant:
  assumes "reachable s" and "map_of (entity_frequency s) k = Some v"
  shows "EPSILON \<le> v \<and> 0 < v"
proof -
  have "distinct (map fst (entity_frequency s))" and "freq_inv (entity_frequency s)"
    using reachable_frequency[OF assms(1)] by simp_all
  then have "EPSILON \<le> v" using assms(2) by (simp add: freq_inv_iff)
  then show ?thesis by (simp add: EPSILON_def)
qed

theorem frequency_invariant_witness:
  "reachable ex_turn \<and> map_of (entity_frequency ex_turn) ''A'' = Some 1
   \<and> EPSILON \<le> (1::real) \<and> (0::real) < 1"
proof -
  have m: "map_of (entity_frequency ex_turn) ''A'' = Some 1" by (simp add: ex_turn_freq)
  show ?thesis
    using reachable_ex_turn m frequency_invariant[OF reachable_ex_turn m] by simp
qed

text \<open>
  C7. For an entity tracked with weight \<open>w\<close> in a reachable state and a decay rate below
  1, the weight read after \<open>apply_temporal_decay\<close> is strictly less than \<open>w\<close>: the entry
  holds \<open>w * rate\<close> when that is at least the threshold 1e-4 and is removed from the map
  otherwise.
\<close>

theorem decay_monotone:
  assumes "reachable s" and "map_of (entity_frequency s) k = Some w"
    and "TEMPORAL_DECAY_RATE (cfg s) < 1"
  shows "dict_get (entity_frequency (apply_temporal_decay s)) k 0 < w
         \<and> map_of (entity_frequency (apply_temporal_decay s)) k =
             (if w * TEMPORAL_DECAY_RATE (cfg s) < EPSILON then None
              else Some (w * TEMPORAL_DECAY_RATE (cfg s)))"
proof -
  have dist: "distinct (map fst (entity_frequency s))" and inv: "freq_inv (entity_frequency s)"
    using reachable_frequency[OF assms(1)] by simp_all
  have pos: "0 < w" using inv assms(2) dist by (simp add: freq_inv_iff EPSILON_def) force
  have ne: "entity_frequency s \<noteq> []" using assms(2) by auto
  have m: "map_of (entity_frequency (apply_temporal_decay s)) k =
             (if w * TEMPORAL_DECAY_RATE (cfg s) < EPSILON then None
              else Some (w * TEMPORAL_DECAY_RATE (cfg s)))"
    using ne assms(2) by (simp add: apply_temporal_decay_def decay_loop_all_keys[OF dist])
  have less: "w * TEMPORAL_DECAY_RATE (cfg s) < w"
    using pos assms(3) by simp
  show ?thesis using m less pos by (simp add: dict_get_def)
qed

theorem decay_monotone_witness:
  "reachable ex_turn \<and> map_of (entity_frequency ex_turn) ''A'' = Some 1
   \<and> dict_get (entity_frequency (apply_temporal_decay ex_turn)) ''A'' 0 < 1
   \<and> map_of (entity_frequency (apply_temporal_decay ex_turn)) ''A'' = Some (95 / 100)"
proof -
  have m: "map_of (entity_frequency ex_turn) ''A'' = Some 1" by (simp add: ex_turn_freq)
  have r: "TEMPORAL_DECAY_RATE (cfg ex_turn) < 1"
    by (simp add: ex_turn_cfg default_settings_def)
  show ?thesis
    using reachable_ex_turn m decay_monotone[OF reachable_ex_turn m r]
    by (simp add: ex_turn_cfg default_settings_def EPSILON_def)
qed

section \<open>Properties of loading\<close>

lemma reload_empty:
  "compute_centrality pagerank (build_indices (s\<lparr>graph := empty_graph\<rparr>)) =
     s\<lparr>graph := empty_graph, label_index := [], node_metadata := [], centrality := []\<rparr>"
  by (simp add: build_indices_def compute_centrality_def empty_graph_def number_of_nodes_def)

text \<open>
  When the existence check returns, \<open>reload_graph\<close> returns too, and a missing file or a
  failed read leaves the empty graph with empty label index, metadata and centrality map.
\<close>

lemma reload_graph_fallback:
  assumes "fs (graph_path s) = Missing \<or> fs (graph_path s) = ReadRaises e"
  shows "reload_graph fs pagerank s =
           Inr (s\<lparr>graph := empty_graph, label_index := [], node_metadata := [], centrality := []\<rparr>)"
  using assms by (auto simp: reload_graph_def reload_empty)

lemma reload_graph_readable:
  "fs (graph_path s) = Readable G \<Longrightarrow> \<exists>s'. reload_graph fs pagerank s = Inr s'"
  by (simp add: reload_graph_def)

text \<open>
  C9 does not hold of the code. \<^verbatim>\<open>self.graph_path.exists()\<close> is called before the
  \<^verbatim>\<open>try\<close>, so an \<^verbatim>\<open>OSError\<close> that it raises, as for a graph path of 300 characters
  that names no file, leaves \<open>reload_graph\<close> and reaches the caller, where the claim
  asks for the empty graph. A failure of the read, one statement later, is caught.
\<close>

theorem reload_graph_raises:
  "reload_graph long_name_fs ex_pagerank (ex_manager\<lparr>graph_path := replicate 300 (CHR ''a'')\<rparr>)
     = Inl OSError"
  by (simp add: reload_graph_def long_name_fs_def)

section \<open>Properties of the importance score\<close>

lemma ex_manager_centrality:
  "centrality ex_manager = [(''A'', 1/3), (''B'', 1/3), (''C'', 1/3), (''D'', 1/3)]"
  by (simp add: ex_manager_def init_def reload_graph_def ex_fs_def ex_graph_def Let_def
      build_indices_def compute_centrality_def ex_pagerank_def number_of_nodes_def
      degree_centrality_def node_ids_def degree_def)

lemma ex_manager_last_seen: "entity_last_seen ex_manager = []"
  by (simp add: ex_manager_def init_def reload_graph_def ex_fs_def ex_graph_def Let_def
      build_indices_def compute_centrality_def ex_pagerank_def number_of_nodes_def)

lemma ex_turn_last_seen: "entity_last_seen ex_turn = [(''A'', 0)]"
  by (simp add: ex_turn_def update_conversation_context_def apply_temporal_decay_def
      ex_manager_freq ex_manager_last_seen Let_def dict_get_def)

lemma mention_loop_centrality: "centrality (mention_loop now es s) = centrality s"
  by (induction es arbitrary: s) simp_all

lemma ex_turn_centrality: "centrality ex_turn = centrality ex_manager"
  by (simp add: ex_turn_def update_conversation_context_def apply_temporal_decay_def
      ex_manager_freq Let_def mention_loop_centrality)

lemma ex_importance_0: "calculate_node_importance ex_turn 0 ''A'' [''A''] = 8 / 10"
  by (simp add: calculate_node_importance_def recency_score_def ex_turn_freq ex_turn_last_seen
      ex_turn_cfg ex_turn_centrality ex_manager_centrality default_settings_def dict_get_def Let_def)

lemma ex_importance_1: "calculate_node_importance ex_turn 3600 ''A'' [''A''] = 79 / 100"
  by (simp add: calculate_node_importance_def recency_score_def ex_turn_freq ex_turn_last_seen
      ex_turn_cfg ex_turn_centrality ex_manager_centrality default_settings_def dict_get_def Let_def)

text \<open>
  C3, as stated, fails: \<open>_recency_score\<close> reads the clock, so two calls on the same state
  an hour apart give 0.8 and 0.79 for a node last seen at the first call.
\<close>

theorem importance_clock_counterexample:
  "calculate_node_importance ex_turn 0 ''A'' [''A'']
     \<noteq> calculate_node_importance ex_turn 3600 ''A'' [''A'']"
  by (simp add: ex_importance_0 ex_importance_1)

text \<open>
  C3, amended. Two calls of \<open>calculate_node_importance\<close> on the same state and with the
  same arguments return the same result when they are made at the same clock reading,
  and at any two clock readings when the node has no last-seen entry, for then
  \<open>_recency_score\<close> returns 0.0 before it reads the clock.
\<close>

theorem importance_deterministic:
  assumes "t1 = t2 \<or> map_of (entity_last_seen s) node = None"
  shows "calculate_node_importance s t1 node F = calculate_node_importance s t2 node F"
  using assms by (auto simp: calculate_node_importance_def recency_score_def)

theorem importance_deterministic_witness:
  "map_of (entity_last_seen ex_turn) ''B'' = None \<and>
   calculate_node_importance ex_turn 0 ''B'' [''A''] = calculate_node_importance ex_turn 3600 ''B'' [''A'']"
proof -
  have n: "map_of (entity_last_seen ex_turn) ''B'' = None" by (simp add: ex_turn_last_seen)
  then have "(0::real) = 3600 \<or> map_of (entity_last_seen ex_turn) ''B'' = None" by simp
  from importance_deterministic[OF this] show ?thesis using n by simp
qed

section \<open>The example instance, evaluated\<close>

lemma ex_manager_graph: "graph ex_manager = ex_graph"
  by (simp add: ex_manager_def init_def reload_graph_def ex_fs_def ex_graph_def Let_def
      build_indices_def compute_centrality_def ex_pagerank_def number_of_nodes_def)

lemma ex_ego_A: "ego_nodes ex_graph ''A'' 2 = [''A'', ''B'']"
  by (simp add: numeral_2_eq_2 expand_def adj_def ex_graph_def node_ids_def)

lemma ex_ego_C: "ego_nodes ex_graph ''C'' 2 = [''C'', ''D'']"
  by (simp add: numeral_2_eq_2 expand_def adj_def ex_graph_def node_ids_def)

lemma ex_importance:
  "calculate_node_importance ex_manager t n F = 1 / 10 + (if n \<in> set F then 2 / 10 else 0)"
  if "n \<in> {''A'', ''B'', ''C'', ''D''}"
  using that
  by (auto simp add: calculate_node_importance_def recency_score_def ex_manager_freq ex_manager_last_seen
      ex_manager_cfg ex_manager_centrality default_settings_def dict_get_def Let_def)

lemma ex_select_AC: "select_nodes remdups ex_clock ex_manager [''A'', ''C''] 2 1 = [''A'', ''C'']"
  by (simp add: select_nodes_def Let_def ex_manager_graph contains_def ex_ego_A ex_ego_C
      set_update_def set_add_def ex_importance py_take_def)
     (simp add: ex_graph_def node_ids_def)

lemma ex_sub_AC:
  "subgraph ex_graph [''A'', ''C''] = \<lparr>nodes = [(''A'', []), (''C'', [])], edges = []\<rparr>"
  by (simp add: subgraph_def ex_graph_def)

lemma ex_components_AC:
  "connected_components (subgraph ex_graph [''A'', ''C'']) = [[''A''], [''C'']]"
  by (simp add: ex_sub_AC connected_components_def node_ids_def plain_bfs_def number_of_nodes_def
      numeral_2_eq_2 expand_def adj_def Let_def)

lemma ex_dist_CA: "shortest_path_length ex_graph ''C'' ''A'' = Inl NetworkXNoPath"
  by (simp add: shortest_path_length_def contains_def number_of_nodes_def node_ids_def
      ex_graph_def eval_nat_numeral expand_def adj_def)

lemma ex_dist_CC: "shortest_path_length ex_graph ''C'' ''C'' = Inr 0"
  by (simp add: shortest_path_length_def contains_def number_of_nodes_def node_ids_def
      ex_graph_def eval_nat_numeral)

lemma ex_build_AC:
  "build_contextual_subgraph remdups ex_clock ex_manager [''A'', ''C''] (Some 2) (Some 1)
     = Inr (subgraph ex_graph [''A'', ''C''])"
  by (simp add: build_contextual_subgraph_def ex_manager_graph ex_manager_cfg default_settings_def
      py_or_def Let_def ex_select_AC ensure_connectivity_def ex_components_AC
      shortest_path_length_safe_def shortest_path_safe_def shortest_path_def ex_dist_CA ex_dist_CC
      set_add_def contains_def)
     (simp add: number_of_nodes_def ex_graph_def node_ids_def)

lemma ex_select_A: "select_nodes remdups ex_clock ex_manager [''A''] 2 10 = [''A'', ''B'']"
  by (simp add: select_nodes_def Let_def ex_manager_graph contains_def ex_ego_A
      set_update_def set_add_def ex_importance py_take_def)
     (simp add: ex_graph_def node_ids_def)

lemma ex_sub_AB:
  "subgraph ex_graph [''A'', ''B''] =
     \<lparr>nodes = [(''A'', []), (''B'', [])],
      edges = [\<lparr>source = ''A'', target = ''B'', edge_attrs = [], weight = Some 1\<rparr>]\<rparr>"
  by (simp add: subgraph_def ex_graph_def)

lemma ex_components_AB:
  "connected_components (subgraph ex_graph [''A'', ''B'']) = [[''A'', ''B'']]"
  by (simp add: ex_sub_AB connected_components_def node_ids_def plain_bfs_def number_of_nodes_def
      numeral_2_eq_2 expand_def adj_def Let_def)

lemma ex_build_zero_hops:
  "build_contextual_subgraph remdups ex_clock ex_manager [''A''] (Some 0) (Some 10)
     = Inr (subgraph ex_graph [''A'', ''B''])"
  by (simp add: build_contextual_subgraph_def ex_manager_graph ex_manager_cfg default_settings_def
      py_or_def Let_def ex_select_A ensure_connectivity_def ex_components_AB)
     (simp add: number_of_nodes_def ex_graph_def)

section \<open>Properties of the subgraph builder\<close>

subsection \<open>Sets as lists\<close>

lemma set_set_add [simp]: "set (set_add x S) = insert x (set S)"
  by (auto simp: set_add_def)

lemma distinct_set_add [simp]: "distinct (set_add x S) = distinct S"
  by (auto simp: set_add_def)

lemma length_set_add: "length (set_add x S) \<le> Suc (length S)"
  by (simp add: set_add_def)

lemma set_add_member: "x \<in> set S \<Longrightarrow> set_add x S = S"
  by (simp add: set_add_def)

lemma set_set_update [simp]: "set (set_update S xs) = set S \<union> set xs"
  unfolding set_update_def by (induction xs arbitrary: S) auto

lemma distinct_set_update [simp]: "distinct (set_update S xs) = distinct S"
  unfolding set_update_def by (induction xs arbitrary: S) auto

lemma set_update_Nil [simp]: "set_update S [] = S"
  by (simp add: set_update_def)

lemma iter_ok_set: "iter_ok it \<Longrightarrow> set (it xs) = set xs"
  by (simp add: iter_ok_def)

lemma iter_ok_distinct: "iter_ok it \<Longrightarrow> distinct (it xs)"
  by (simp add: iter_ok_def)

lemma iter_ok_Nil: "iter_ok it \<Longrightarrow> it [] = []"
  using iter_ok_set[of it "[]"] by simp

lemma iter_ok_nonempty: "iter_ok it \<Longrightarrow> xs \<noteq> [] \<Longrightarrow> it xs \<noteq> []"
  using iter_ok_set[of it xs] by (cases xs) auto

lemma length_py_take: "0 \<le> n \<Longrightarrow> length (py_take n xs) \<le> nat n"
  by (simp add: py_take_def)

lemma py_take_all: "int (length xs) \<le> n \<Longrightarrow> py_take n xs = xs"
  by (simp add: py_take_def)

lemma set_py_take: "set (py_take n xs) \<subseteq> set xs"
  by (auto simp: py_take_def dest: in_set_takeD)

subsection \<open>Neighbourhoods\<close>

lemma set_expand:
  "set (expand G S) = set S \<union> {u \<in> set (node_ids G). \<exists>v \<in> set S. adj G v u}"
  by (auto simp: expand_def list_ex_iff)

lemma ego_nodes_center: "v \<in> set (ego_nodes G v r)"
  by (induction r) (simp_all add: set_expand)

lemma ego_nodes_nonempty: "ego_nodes G v r \<noteq> []"
  using ego_nodes_center[of v G r] by auto

lemma ego_nodes_mono_Suc: "set (ego_nodes G v r) \<subseteq> set (ego_nodes G v (Suc r))"
  by (simp add: set_expand)

lemma ego_nodes_mono: "r \<le> r' \<Longrightarrow> set (ego_nodes G v r) \<subseteq> set (ego_nodes G v r')"
proof (induction r' arbitrary: r)
  case 0
  then show ?case by simp
next
  case (Suc r')
  show ?case
  proof (cases "r = Suc r'")
    case True
    then show ?thesis by simp
  next
    case False
    then have "r \<le> r'" using Suc.prems by simp
    then show ?thesis using Suc.IH ego_nodes_mono_Suc by blast
  qed
qed

lemma ego_nodes_subset: "set (ego_nodes G v r) \<subseteq> insert v (set (node_ids G))"
  by (induction r) (auto simp: set_expand)

lemma ego_nodes_step:
  "u \<in> set (ego_nodes G v r) \<Longrightarrow> adj G u w \<Longrightarrow> w \<in> set (node_ids G)
   \<Longrightarrow> w \<in> set (ego_nodes G v (Suc r))"
  by (auto simp: set_expand)

lemma ego_nodes_new:
  "w \<in> set (ego_nodes G v (Suc r)) \<Longrightarrow> w \<notin> set (ego_nodes G v r)
   \<Longrightarrow> w \<in> set (node_ids G) \<and> (\<exists>u \<in> set (ego_nodes G v r). adj G u w)"
  by (auto simp: set_expand)

lemma distinct_expand: "distinct S \<Longrightarrow> distinct (node_ids G) \<Longrightarrow> distinct (expand G S)"
  by (auto simp: expand_def)

lemma distinct_ego_nodes: "distinct (node_ids G) \<Longrightarrow> distinct (ego_nodes G v r)"
  by (induction r) (simp_all add: distinct_expand)

subsection \<open>Distances and paths\<close>

lemma find_dist_Some:
  "find_dist G src dst fuel k = Some d \<Longrightarrow>
     dst \<in> set (ego_nodes G src d) \<and> k \<le> d \<and> (\<forall>j. k \<le> j \<and> j < d \<longrightarrow> dst \<notin> set (ego_nodes G src j))"
proof (induction fuel arbitrary: k)
  case 0
  then show ?case by (auto split: if_splits)
next
  case (Suc fuel)
  show ?case
  proof (cases "dst \<in> set (ego_nodes G src k)")
    case True
    then show ?thesis using Suc.prems by auto
  next
    case False
    then have "find_dist G src dst fuel (Suc k) = Some d" using Suc.prems by simp
    from Suc.IH[OF this] show ?thesis using False
      by (metis Suc_leD Suc_leI le_neq_implies_less)
  qed
qed

lemma chain_append_one:
  "chain G p \<Longrightarrow> p \<noteq> [] \<Longrightarrow> adj G (last p) v \<Longrightarrow> chain G (p @ [v])"
  by (induction G p rule: chain.induct) auto

lemma path_to_props:
  "dst \<in> set (ego_nodes G src d) \<Longrightarrow> (\<forall>j < d. dst \<notin> set (ego_nodes G src j)) \<Longrightarrow>
   (let p = path_to G src d dst in
      p \<noteq> [] \<and> hd p = src \<and> last p = dst \<and> chain G p \<and> set p \<subseteq> insert src (set (node_ids G)))"
proof (induction d arbitrary: dst)
  case 0
  then show ?case by simp
next
  case (Suc d)
  have notin: "dst \<notin> set (ego_nodes G src d)" using Suc.prems(2) by simp
  from ego_nodes_new[OF Suc.prems(1) notin]
  have dstG: "dst \<in> set (node_ids G)" and ex: "\<exists>u \<in> set (ego_nodes G src d). adj G u dst"
    by simp_all
  then obtain u where fu: "find (\<lambda>u. adj G u dst) (ego_nodes G src d) = Some u"
    by (cases "find (\<lambda>u. adj G u dst) (ego_nodes G src d)") (auto simp: find_None_iff)
  then have u_in: "u \<in> set (ego_nodes G src d)" and u_adj: "adj G u dst"
    by (auto simp: find_Some_iff)
  have u_min: "\<forall>j < d. u \<notin> set (ego_nodes G src j)"
  proof (intro allI impI notI)
    fix j assume j: "j < d" and "u \<in> set (ego_nodes G src j)"
    then have "dst \<in> set (ego_nodes G src (Suc j))"
      using ego_nodes_step u_adj dstG by blast
    moreover have "Suc j \<le> d" using j by simp
    ultimately have "dst \<in> set (ego_nodes G src d)" using ego_nodes_mono by blast
    then show False using notin by simp
  qed
  from Suc.IH[OF u_in u_min]
  have p: "path_to G src d u \<noteq> []" "hd (path_to G src d u) = src" "last (path_to G src d u) = u"
    "chain G (path_to G src d u)" "set (path_to G src d u) \<subseteq> insert src (set (node_ids G))"
    by (simp_all add: Let_def)
  show ?case using p fu dstG u_adj
    by (simp add: Let_def chain_append_one)
qed

lemma length_set_update: "length (set_update S xs) \<le> length S + length xs"
  unfolding set_update_def
proof (induction xs arbitrary: S)
  case Nil
  then show ?case by simp
next
  case (Cons x xs)
  have "length (fold set_add xs (set_add x S)) \<le> length (set_add x S) + length xs"
    by (rule Cons.IH)
  also have "\<dots> \<le> Suc (length S) + length xs" using length_set_add[of x S] by simp
  finally show ?case by simp
qed

lemma shortest_path_safe_props:
  "(let p = shortest_path_safe s src tgt in
      p \<noteq> [] \<and> hd p = src \<and> chain (graph s) p \<and> set p \<subseteq> insert src (set (node_ids (graph s))))"
proof (cases "shortest_path (graph s) src tgt")
  case (Inl e)
  then show ?thesis by (simp add: shortest_path_safe_def)
next
  case (Inr p)
  then obtain d where d: "find_dist (graph s) src tgt (number_of_nodes (graph s)) 0 = Some d"
    and p: "p = path_to (graph s) src d tgt"
    by (auto simp: shortest_path_def shortest_path_length_def split: if_splits option.splits)
  from find_dist_Some[OF d]
  have "tgt \<in> set (ego_nodes (graph s) src d)" "\<forall>j < d. tgt \<notin> set (ego_nodes (graph s) src j)"
    by auto
  from path_to_props[OF this] show ?thesis using Inr p
    by (simp add: shortest_path_safe_def Let_def)
qed

lemma shortest_path_safe_hd: "hd (shortest_path_safe s src tgt) = src"
  using shortest_path_safe_props[of s src tgt] by (simp add: Let_def)

lemma shortest_path_safe_nonempty: "shortest_path_safe s src tgt \<noteq> []"
  using shortest_path_safe_props[of s src tgt] by (simp add: Let_def)

lemma shortest_path_safe_chain: "chain (graph s) (shortest_path_safe s src tgt)"
  using shortest_path_safe_props[of s src tgt] by (simp add: Let_def)

lemma shortest_path_safe_subset:
  "set (shortest_path_safe s src tgt) \<subseteq> insert src (set (node_ids (graph s)))"
  using shortest_path_safe_props[of s src tgt] by (simp add: Let_def)

subsection \<open>Adding a path\<close>

lemma add_path_prefix:
  "\<exists>k \<le> length ps. set (fst (add_path ps sel n)) = set sel \<union> set (take k ps)
      \<and> (\<not> snd (add_path ps sel n) \<longrightarrow> k = length ps) \<and> (ps \<noteq> [] \<longrightarrow> 0 < k)"
proof (induction ps arbitrary: sel)
  case Nil
  then show ?case by simp
next
  case (Cons p ps)
  show ?case
  proof (cases "n \<le> int (length (set_add p sel))")
    case True
    then have "add_path (p # ps) sel n = (set_add p sel, True)" by (simp add: Let_def)
    then have "set (fst (add_path (p # ps) sel n)) = set sel \<union> set (take 1 (p # ps))
       \<and> (\<not> snd (add_path (p # ps) sel n) \<longrightarrow> 1 = length (p # ps))" by simp
    then show ?thesis by (intro exI[of _ 1]) simp
  next
    case False
    then have eq: "add_path (p # ps) sel n = add_path ps (set_add p sel) n" by (simp add: Let_def)
    from Cons.IH[of "set_add p sel"] obtain k where k: "k \<le> length ps"
      "set (fst (add_path ps (set_add p sel) n)) = set (set_add p sel) \<union> set (take k ps)"
      "\<not> snd (add_path ps (set_add p sel) n) \<longrightarrow> k = length ps" by blast
    have "set (fst (add_path (p # ps) sel n)) = set sel \<union> set (take (Suc k) (p # ps))"
      using k(2) eq by auto
    then show ?thesis using k(1,3) eq by (intro exI[of _ "Suc k"]) simp
  qed
qed

lemma add_path_superset: "set sel \<subseteq> set (fst (add_path ps sel n))"
  using add_path_prefix[of ps sel n] by auto

lemma add_path_length:
  "int (length sel) < n \<Longrightarrow>
   int (length (fst (add_path ps sel n))) \<le> n
   \<and> (\<not> snd (add_path ps sel n) \<longrightarrow> int (length (fst (add_path ps sel n))) < n)"
proof (induction ps arbitrary: sel)
  case Nil
  then show ?case by simp
next
  case (Cons p ps)
  show ?case
  proof (cases "n \<le> int (length (set_add p sel))")
    case True
    then have eq: "add_path (p # ps) sel n = (set_add p sel, True)" by (simp add: Let_def)
    have "int (length (set_add p sel)) \<le> n" using Cons.prems length_set_add[of p sel] by linarith
    then show ?thesis using eq by simp
  next
    case False
    then have eq: "add_path (p # ps) sel n = add_path ps (set_add p sel) n" by (simp add: Let_def)
    have "int (length (set_add p sel)) < n" using False by simp
    from Cons.IH[OF this] show ?thesis using eq by simp
  qed
qed

lemma add_path_full:
  "ps \<noteq> [] \<Longrightarrow> hd ps \<in> set sel \<Longrightarrow> n \<le> int (length sel) \<Longrightarrow> add_path ps sel n = (sel, True)"
  by (cases ps) (simp_all add: set_add_member Let_def)

lemma add_path_distinct: "distinct sel \<Longrightarrow> distinct (fst (add_path ps sel n))"
  by (induction ps arbitrary: sel) (simp_all add: Let_def)

subsection \<open>Induced subgraphs and components\<close>

lemma node_ids_subgraph: "node_ids (subgraph G S) = filter (\<lambda>n. n \<in> set S) (node_ids G)"
  by (simp add: node_ids_def subgraph_def filter_map o_def case_prod_unfold)

lemma set_node_ids_subgraph: "set (node_ids (subgraph G S)) = set S \<inter> set (node_ids G)"
  by (auto simp: node_ids_subgraph)

lemma number_of_nodes_subgraph:
  "distinct (node_ids G) \<Longrightarrow> number_of_nodes (subgraph G S) = card (set S \<inter> set (node_ids G))"
proof -
  assume d: "distinct (node_ids G)"
  have "number_of_nodes (subgraph G S) = length (node_ids (subgraph G S))"
    by (simp add: number_of_nodes_def node_ids_def)
  also have "\<dots> = card (set (node_ids (subgraph G S)))"
    using d by (simp only: node_ids_subgraph distinct_filter distinct_card)
  finally show ?thesis by (simp only: set_node_ids_subgraph)
qed

lemma plain_bfs_nonempty: "plain_bfs G v \<noteq> []"
  by (simp add: plain_bfs_def ego_nodes_nonempty)

lemma plain_bfs_subset: "v \<in> set (node_ids G) \<Longrightarrow> set (plain_bfs G v) \<subseteq> set (node_ids G)"
  using ego_nodes_subset[of G v "number_of_nodes G"] by (auto simp: plain_bfs_def)

lemma components_loop_props:
  "set vs \<subseteq> set (node_ids G) \<Longrightarrow> c \<in> set (components_loop G vs seen)
   \<Longrightarrow> c \<noteq> [] \<and> set c \<subseteq> set (node_ids G)"
proof (induction vs arbitrary: seen)
  case Nil
  then show ?case by simp
next
  case (Cons v vs)
  then show ?case
    using plain_bfs_nonempty[of G v] plain_bfs_subset[of v G]
    by (auto simp: Let_def split: if_splits)
qed

lemma connected_components_props:
  "c \<in> set (connected_components G) \<Longrightarrow> c \<noteq> [] \<and> set c \<subseteq> set (node_ids G)"
  unfolding connected_components_def using components_loop_props[of "node_ids G" G c "[]"] by simp

subsection \<open>The repair loop\<close>

lemma repair_loop_result:
  assumes "iter_ok it" and "\<forall>c \<in> set comps. c \<noteq> [] \<and> set c \<subseteq> set sel"
  shows "\<exists>fin. repair_loop it s f fs base n comps sel = Inr fin \<and> set sel \<subseteq> set fin
           \<and> (fin = sel \<or> int (length fin) \<le> n)"
  using assms(2)
proof (induction comps arbitrary: sel)
  case Nil
  then show ?case by simp
next
  case (Cons c comps)
  show ?case
  proof (cases "set c = set base")
    case True
    then show ?thesis using Cons.IH[of sel] Cons.prems by simp
  next
    case False
    have cne: "c \<noteq> []" and csub: "set c \<subseteq> set sel" using Cons.prems by simp_all
    obtain src rest where itc: "it c = src # rest"
      using iter_ok_nonempty[OF assms(1) cne] by (cases "it c") auto
    then have "src \<in> set c" using iter_ok_set[OF assms(1), of c] by auto
    then have src_sel: "src \<in> set sel" using csub by auto
    define tgt where "tgt = min_by (\<lambda>node. shortest_path_length_safe s src node) f fs"
    define path where "path = shortest_path_safe s src tgt"
    have pne: "path \<noteq> []" and phd: "hd path = src"
      by (simp_all add: path_def shortest_path_safe_nonempty shortest_path_safe_hd)
    obtain sel' b where ap: "add_path path sel n = (sel', b)" by (cases "add_path path sel n")
    have sup: "set sel \<subseteq> set sel'" using add_path_superset[of sel path n] ap by simp
    have step: "repair_loop it s f fs base n (c # comps) sel =
        (if b then Inr sel' else repair_loop it s f fs base n comps sel')"
      using False itc ap by (simp add: tgt_def path_def Let_def)
    show ?thesis
    proof (cases "n \<le> int (length sel)")
      case True
      then have "add_path path sel n = (sel, True)"
        using add_path_full[OF pne] phd src_sel by simp
      then show ?thesis using step ap by simp
    next
      case lt: False
      then have "int (length sel) < n" by simp
      from add_path_length[OF this, of path]
      have len: "int (length sel') \<le> n" and len': "\<not> b \<longrightarrow> int (length sel') < n"
        using ap by simp_all
      show ?thesis
      proof (cases b)
        case True
        then show ?thesis using step sup len by simp
      next
        case nb: False
        have "\<forall>c \<in> set comps. c \<noteq> [] \<and> set c \<subseteq> set sel'" using Cons.prems sup by auto
        from Cons.IH[OF this] obtain fin where
          fin: "repair_loop it s f fs base n comps sel' = Inr fin" "set sel' \<subseteq> set fin"
            "fin = sel' \<or> int (length fin) \<le> n" by blast
        show ?thesis using step nb fin sup len by auto
      qed
    qed
  qed
qed

lemma ensure_connectivity_result:
  assumes "iter_ok it"
  shows "\<exists>fin. ensure_connectivity it s (subgraph (graph s) sel) sel F n = Inr fin
           \<and> set sel \<subseteq> set fin \<and> (fin = sel \<or> int (length fin) \<le> n)"
proof -
  have comps: "\<forall>c \<in> set (connected_components (subgraph (graph s) sel)). c \<noteq> [] \<and> set c \<subseteq> set sel"
    using connected_components_props[of _ "subgraph (graph s) sel"]
    by (auto simp: set_node_ids_subgraph)
  have rl: "\<And>f fs base cs. connected_components (subgraph (graph s) sel) = cs \<Longrightarrow>
        \<exists>fin. repair_loop it s f fs base n cs sel = Inr fin \<and> set sel \<subseteq> set fin
           \<and> (fin = sel \<or> int (length fin) \<le> n)"
    using repair_loop_result[OF assms comps] by blast
  show ?thesis
    unfolding ensure_connectivity_def Let_def
    by (auto simp del: repair_loop.simps split: list.splits intro: rl)
qed

lemma build_result:
  assumes "iter_ok it" and "number_of_nodes (graph s) \<noteq> 0"
  shows "\<exists>fin. build_contextual_subgraph it clk s F h n = Inr (subgraph (graph s) fin)
           \<and> set (select_nodes it clk s F (py_or h (MAX_HOPS (cfg s)))
                    (py_or n (MAX_GRAPH_NODES (cfg s)))) \<subseteq> set fin
           \<and> (fin = select_nodes it clk s F (py_or h (MAX_HOPS (cfg s)))
                    (py_or n (MAX_GRAPH_NODES (cfg s)))
              \<or> int (length fin) \<le> py_or n (MAX_GRAPH_NODES (cfg s)))"
proof -
  define sel where "sel = select_nodes it clk s F (py_or h (MAX_HOPS (cfg s)))
                    (py_or n (MAX_GRAPH_NODES (cfg s)))"
  from ensure_connectivity_result[OF assms(1), of s sel F "py_or n (MAX_GRAPH_NODES (cfg s))"]
  obtain fin where fin: "ensure_connectivity it s (subgraph (graph s) sel) sel F
        (py_or n (MAX_GRAPH_NODES (cfg s))) = Inr fin"
     "set sel \<subseteq> set fin" "fin = sel \<or> int (length fin) \<le> py_or n (MAX_GRAPH_NODES (cfg s))"
    by blast
  have "build_contextual_subgraph it clk s F h n = Inr (subgraph (graph s) fin)"
    using assms(2) fin(1) by (simp add: build_contextual_subgraph_def Let_def sel_def)
  then show ?thesis using fin(2,3) unfolding sel_def by blast
qed

subsection \<open>The selection\<close>

lemma map_fst_score_loop: "map fst (score_loop s clk i F xs) = xs"
  by (induction xs arbitrary: i) simp_all

lemma length_score_loop: "length (score_loop s clk i F xs) = length xs"
  by (induction xs arbitrary: i) simp_all

lemma select_nodes_focal:
  "iter_ok it \<Longrightarrow> F \<noteq> [] \<Longrightarrow> set F \<subseteq> set (select_nodes it clk s F h n)"
  by (simp add: select_nodes_def Let_def iter_ok_set)

lemma select_nodes_split:
  assumes "iter_ok it" and "0 \<le> n"
  shows "\<exists>sel0. length sel0 \<le> nat n \<and> set (select_nodes it clk s F h n) \<subseteq> set sel0 \<union> set F"
proof -
  define cand0 where "cand0 = candidate_loop (graph s) (nat h) (it F) []"
  define cand where "cand = (if cand0 = []
             then set_update []
                    (py_take n
                       (sort_key (\<lambda>node. - dict_get (centrality s) node 0) (node_ids (graph s))))
             else cand0)"
  define ranked where "ranked = sort_key (\<lambda>item. - snd item) (score_loop s clk 0 F (it cand))"
  define sel0 where "sel0 = set_update [] (map fst (py_take n ranked))"
  have "length sel0 \<le> length (map fst (py_take n ranked))"
    unfolding sel0_def using length_set_update[of "[]" "map fst (py_take n ranked)"] by simp
  also have "\<dots> \<le> nat n" using length_py_take[OF assms(2)] by simp
  finally have len: "length sel0 \<le> nat n" .
  have "select_nodes it clk s F h n = (if F \<noteq> [] then set_update sel0 (it F) else sel0)"
    by (simp add: select_nodes_def Let_def sel0_def ranked_def cand_def cand0_def)
  then have "set (select_nodes it clk s F h n) \<subseteq> set sel0 \<union> set F"
    using iter_ok_set[OF assms(1)] by auto
  then show ?thesis using len by blast
qed

lemma select_nodes_card:
  assumes "iter_ok it" and "0 \<le> n"
  shows "card (set (select_nodes it clk s F h n) \<inter> set (node_ids (graph s)))
           \<le> nat n + card {f \<in> set F. contains (graph s) f}"
proof -
  from select_nodes_split[OF assms] obtain sel0 where
    len: "length sel0 \<le> nat n" and sub: "set (select_nodes it clk s F h n) \<subseteq> set sel0 \<union> set F"
    by blast
  have "set (select_nodes it clk s F h n) \<inter> set (node_ids (graph s))
          \<subseteq> set sel0 \<union> {f \<in> set F. contains (graph s) f}"
    using sub by (auto simp: contains_def)
  then have "card (set (select_nodes it clk s F h n) \<inter> set (node_ids (graph s)))
          \<le> card (set sel0 \<union> {f \<in> set F. contains (graph s) f})"
    by (intro card_mono) auto
  also have "\<dots> \<le> card (set sel0) + card {f \<in> set F. contains (graph s) f}"
    by (rule card_Un_le)
  also have "\<dots> \<le> nat n + card {f \<in> set F. contains (graph s) f}"
    using len card_length[of sel0] by simp
  finally show ?thesis .
qed

lemma py_or_Some: "k \<noteq> 0 \<Longrightarrow> py_or (Some k) d = k"
  by (simp add: py_or_def)

text \<open>
  C1. For a positive \<open>max_nodes\<close> argument \<open>n\<close>, \<open>build_contextual_subgraph\<close> returns a
  subgraph with at most \<open>n\<close> nodes plus the number of focal entities present in the
  graph, whatever the connectivity repair added: the repair either leaves the selection
  as it was or stops with at most \<open>n\<close> selected nodes.
\<close>

theorem node_budget:
  assumes "iter_ok it" and "distinct (node_ids (graph s))" and "0 < n"
  shows "\<exists>H. build_contextual_subgraph it clk s F h (Some n) = Inr H
           \<and> number_of_nodes H \<le> nat n + card {f \<in> set F. contains (graph s) f}"
proof (cases "number_of_nodes (graph s) = 0")
  case True
  then show ?thesis
    by (simp add: build_contextual_subgraph_def empty_graph_def number_of_nodes_def)
next
  case False
  have n: "py_or (Some n) (MAX_GRAPH_NODES (cfg s)) = n" using assms(3) by (simp add: py_or_def)
  define sel where "sel = select_nodes it clk s F (py_or h (MAX_HOPS (cfg s))) n"
  from build_result[OF assms(1) False, of clk F h "Some n"] obtain fin where
    b: "build_contextual_subgraph it clk s F h (Some n) = Inr (subgraph (graph s) fin)"
    and fin: "fin = sel \<or> int (length fin) \<le> n"
    unfolding n sel_def by blast
  have "card (set fin \<inter> set (node_ids (graph s))) \<le> nat n + card {f \<in> set F. contains (graph s) f}"
  proof (cases "fin = sel")
    case True
    then show ?thesis using select_nodes_card[OF assms(1), of n clk s F] assms(3)
      by (simp add: sel_def)
  next
    case False
    then have "int (length fin) \<le> n" using fin by simp
    then have "length fin \<le> nat n" by simp
    moreover have "card (set fin \<inter> set (node_ids (graph s))) \<le> card (set fin)"
      by (intro card_mono) auto
    ultimately show ?thesis using card_length[of fin] by linarith
  qed
  then show ?thesis using b by (simp add: number_of_nodes_subgraph[OF assms(2)])
qed

theorem node_budget_witness:
  "iter_ok remdups \<and> distinct (node_ids (graph ex_manager)) \<and> (0::int) < 1
   \<and> build_contextual_subgraph remdups ex_clock ex_manager [''A'', ''C''] (Some 2) (Some 1)
       = Inr (subgraph ex_graph [''A'', ''C''])
   \<and> number_of_nodes (subgraph ex_graph [''A'', ''C''])
       \<le> nat 1 + card {f \<in> set [''A'', ''C'']. contains (graph ex_manager) f}"
proof -
  have d: "distinct (node_ids (graph ex_manager))"
    by (simp add: ex_manager_graph ex_graph_def node_ids_def)
  have p: "(0::int) < 1" by simp
  show ?thesis
    using node_budget[OF iter_ok_remdups d p, of ex_clock "[''A'', ''C'']" "Some 2"]
      iter_ok_remdups d ex_build_AC
    by simp
qed

text \<open>
  C2. When the focal set is non-empty and every focal entity is a node of the graph,
  \<open>build_contextual_subgraph\<close> returns a subgraph that contains every focal entity,
  whatever its score and whatever the node budget.
\<close>

theorem focal_force_included:
  assumes "iter_ok it" and "F \<noteq> []" and "\<forall>f \<in> set F. contains (graph s) f"
  shows "\<exists>H. build_contextual_subgraph it clk s F h n = Inr H \<and> set F \<subseteq> set (node_ids H)"
proof -
  obtain f where "f \<in> set F" using assms(2) by (cases F) auto
  then have "f \<in> set (node_ids (graph s))" using assms(3) by (simp add: contains_def)
  then have ne: "number_of_nodes (graph s) \<noteq> 0"
    by (auto simp: number_of_nodes_def node_ids_def)
  from build_result[OF assms(1) ne, of clk F h n] obtain fin where
    b: "build_contextual_subgraph it clk s F h n = Inr (subgraph (graph s) fin)"
    and sup: "set (select_nodes it clk s F (py_or h (MAX_HOPS (cfg s)))
                    (py_or n (MAX_GRAPH_NODES (cfg s)))) \<subseteq> set fin"
    by blast
  have "set F \<subseteq> set fin" using select_nodes_focal[OF assms(1,2)] sup by blast
  then have "set F \<subseteq> set (node_ids (subgraph (graph s) fin))"
    using assms(3) by (auto simp: set_node_ids_subgraph contains_def)
  then show ?thesis using b by simp
qed

theorem focal_force_included_witness:
  "iter_ok remdups \<and> [''A'', ''C''] \<noteq> ([] :: node_id list)
   \<and> contains (graph ex_manager) ''A'' \<and> contains (graph ex_manager) ''C''
   \<and> build_contextual_subgraph remdups ex_clock ex_manager [''A'', ''C''] (Some 2) (Some 1)
       = Inr (subgraph ex_graph [''A'', ''C''])
   \<and> ''A'' \<in> set (node_ids (subgraph ex_graph [''A'', ''C'']))
   \<and> ''C'' \<in> set (node_ids (subgraph ex_graph [''A'', ''C'']))"
proof -
  have ne: "[''A'', ''C''] \<noteq> ([] :: node_id list)" by simp
  have c: "\<forall>f \<in> set [''A'', ''C'']. contains (graph ex_manager) f"
    by (simp add: ex_manager_graph ex_graph_def node_ids_def contains_def)
  show ?thesis
    using focal_force_included[OF iter_ok_remdups ne c, of ex_clock "Some 2" "Some 1"]
      iter_ok_remdups c ex_build_AC
    by simp
qed

subsection \<open>Fallback to the most central nodes\<close>

lemma subgraph_cong: "set A = set B \<Longrightarrow> subgraph G A = subgraph G B"
  by (simp add: subgraph_def)

lemma set_sort_key_fst: "set (map fst (sort_key f xs)) = set (map fst xs)"
  by simp

lemma select_nodes_fallback:
  assumes "iter_ok it" and "0 \<le> n"
  shows "set (select_nodes it clk s [] h n) =
           set (take (nat n) (sort_key (\<lambda>node. - dict_get (centrality s) node 0) (node_ids (graph s))))"
proof -
  define top where "top = take (nat n)
      (sort_key (\<lambda>node. - dict_get (centrality s) node 0) (node_ids (graph s)))"
  define cand where "cand = set_update [] top"
  define ranked where "ranked = sort_key (\<lambda>item. - snd item) (score_loop s clk 0 [] (it cand))"
  have pt: "py_take n (sort_key (\<lambda>node. - dict_get (centrality s) node 0) (node_ids (graph s))) = top"
    using assms(2) by (simp add: py_take_def top_def)
  have "distinct cand" by (simp add: cand_def)
  have "length (it cand) = card (set (it cand))"
    using iter_ok_distinct[OF assms(1)] by (simp add: distinct_card)
  also have "\<dots> = card (set top)" using iter_ok_set[OF assms(1)] by (simp add: cand_def)
  also have "\<dots> \<le> length top" by (rule card_length)
  also have "\<dots> \<le> nat n" by (simp add: top_def)
  finally have "length ranked \<le> nat n" by (simp add: ranked_def length_score_loop)
  then have "int (length ranked) \<le> n" using assms(2) by linarith
  then have all: "py_take n ranked = ranked" by (rule py_take_all)
  have "select_nodes it clk s [] h n = set_update [] (map fst (py_take n ranked))"
    by (simp add: select_nodes_def Let_def iter_ok_Nil[OF assms(1)] pt cand_def ranked_def)
  then have "set (select_nodes it clk s [] h n) = set (map fst ranked)" using all by simp
  also have "\<dots> = set (it cand)"
    unfolding ranked_def by (simp only: set_sort_key_fst map_fst_score_loop)
  also have "\<dots> = set top" using iter_ok_set[OF assms(1)] by (simp add: cand_def)
  finally show ?thesis by (simp add: top_def)
qed

text \<open>
  C6, amended. On a non-empty graph and with an empty focal set,
  \<open>build_contextual_subgraph\<close> returns exactly the induced subgraph on the first \<open>m\<close>
  nodes of the graph's node list sorted by descending centrality, the sort being stable,
  so that ties keep the order of the graph. Here \<open>m\<close> is the node budget in effect: the
  \<open>max_nodes\<close> argument when it is a non-zero integer, \<open>MAX_GRAPH_NODES\<close> when it is 0 or
  \<open>None\<close>; it must not be negative. The result depends neither on the iteration order of
  sets nor on the clock: re-ranking and connectivity repair neither add nor remove a node.
\<close>

theorem fallback_top_centrality:
  assumes "iter_ok it" and "number_of_nodes (graph s) \<noteq> 0"
    and "0 \<le> py_or n (MAX_GRAPH_NODES (cfg s))"
  shows "build_contextual_subgraph it clk s [] h n =
           Inr (subgraph (graph s)
                  (take (nat (py_or n (MAX_GRAPH_NODES (cfg s))))
                     (sort_key (\<lambda>node. - dict_get (centrality s) node 0) (node_ids (graph s)))))"
proof -
  have "build_contextual_subgraph it clk s [] h n =
          Inr (subgraph (graph s)
                 (select_nodes it clk s [] (py_or h (MAX_HOPS (cfg s)))
                    (py_or n (MAX_GRAPH_NODES (cfg s)))))"
    using assms(2) by (simp add: build_contextual_subgraph_def ensure_connectivity_def Let_def)
  then show ?thesis
    using subgraph_cong[OF select_nodes_fallback[OF assms(1,3)]] by simp
qed

lemma ex_sorted:
  "sort_key (\<lambda>node. - dict_get (centrality ex_manager) node 0) (node_ids ex_graph)
     = [''A'', ''B'', ''C'', ''D'']"
  by (simp add: ex_manager_centrality dict_get_def ex_graph_def node_ids_def)

theorem fallback_top_centrality_witness:
  "iter_ok remdups \<and> number_of_nodes (graph ex_manager) \<noteq> 0
   \<and> 0 \<le> py_or (Some 2) (MAX_GRAPH_NODES (cfg ex_manager))
   \<and> build_contextual_subgraph remdups ex_clock ex_manager [] None (Some 2)
       = Inr (subgraph ex_graph [''A'', ''B''])"
proof -
  have ne: "number_of_nodes (graph ex_manager) \<noteq> 0"
    by (simp add: ex_manager_graph ex_graph_def number_of_nodes_def)
  have n: "0 \<le> py_or (Some 2) (MAX_GRAPH_NODES (cfg ex_manager))" by (simp add: py_or_def)
  show ?thesis
    using fallback_top_centrality[OF iter_ok_remdups ne n, of ex_clock None] iter_ok_remdups ne
    by (simp add: py_or_def ex_sorted ex_manager_graph)
qed

lemma ex_select_empty:
  "select_nodes remdups ex_clock ex_manager [] 2 100 = [''A'', ''B'', ''C'', ''D'']"
  by (simp add: select_nodes_def Let_def ex_manager_graph ex_sorted
      set_update_def set_add_def ex_importance py_take_def)

lemma ex_build_empty_zero:
  "build_contextual_subgraph remdups ex_clock ex_manager [] None (Some 0)
     = Inr (subgraph ex_graph [''A'', ''B'', ''C'', ''D''])"
  by (simp add: build_contextual_subgraph_def ex_manager_graph ex_manager_cfg default_settings_def
      py_or_def Let_def ex_select_empty ensure_connectivity_def)
     (simp add: number_of_nodes_def ex_graph_def)

text \<open>
  C6, as stated, fails for \<open>max_nodes = 0\<close>: with the default settings the budget in
  effect is 100 and the result has all four nodes of the example graph, not the zero
  most central ones.
\<close>

theorem fallback_zero_counterexample:
  "build_contextual_subgraph remdups ex_clock ex_manager [] None (Some 0)
     = Inr (subgraph ex_graph [''A'', ''B'', ''C'', ''D''])
   \<and> node_ids (subgraph ex_graph [''A'', ''B'', ''C'', ''D'']) = [''A'', ''B'', ''C'', ''D'']
   \<and> node_ids (subgraph ex_graph
        (take 0 (sort_key (\<lambda>node. - dict_get (centrality ex_manager) node 0) (node_ids ex_graph))))
       = []"
  by (simp add: ex_build_empty_zero node_ids_subgraph) (simp add: ex_graph_def node_ids_def)

subsection \<open>Zero arguments\<close>

lemma candidate_loop_zero:
  "set (candidate_loop G 0 es cand) = set cand \<union> {e \<in> set es. contains G e}"
  by (induction es arbitrary: cand) auto

lemma select_nodes_zero:
  assumes "iter_ok it"
  shows "set (select_nodes it clk s F h 0) = set F"
proof -
  have "py_take 0 xs = []" for xs :: "(node_id \<times> real) list" by (simp add: py_take_def)
  then show ?thesis
    using iter_ok_set[OF assms] by (auto simp: select_nodes_def Let_def)
qed

lemma build_zero_budget:
  assumes "iter_ok it" and "py_or n (MAX_GRAPH_NODES (cfg s)) = 0"
  shows "\<exists>H. build_contextual_subgraph it clk s F h n = Inr H
           \<and> set (node_ids H) = {f \<in> set F. contains (graph s) f}"
proof (cases "number_of_nodes (graph s) = 0")
  case True
  then show ?thesis
    by (simp add: build_contextual_subgraph_def empty_graph_def number_of_nodes_def node_ids_def
        contains_def)
next
  case False
  define sel where "sel = select_nodes it clk s F (py_or h (MAX_HOPS (cfg s))) 0"
  from build_result[OF assms(1) False, of clk F h n] obtain fin where
    b: "build_contextual_subgraph it clk s F h n = Inr (subgraph (graph s) fin)"
    and sup: "set sel \<subseteq> set fin" and fin: "fin = sel \<or> int (length fin) \<le> 0"
    unfolding assms(2) sel_def by blast
  have "set fin = set sel" using sup fin by auto
  then have "set fin = set F" by (simp add: sel_def select_nodes_zero[OF assms(1)])
  then have "set (node_ids (subgraph (graph s) fin)) = {f \<in> set F. contains (graph s) f}"
    by (auto simp: set_node_ids_subgraph contains_def)
  then show ?thesis using b by simp
qed

text \<open>
  C4, amended. An argument \<open>max_hops = 0\<close> or \<open>max_nodes = 0\<close> is treated like \<open>None\<close>: the
  configured \<open>MAX_HOPS\<close>, respectively \<open>MAX_GRAPH_NODES\<close>, takes its place. With a radius
  of 0 the candidate set is exactly the set of focal entities present in the graph, and
  when the node budget in effect is 0 the nodes of the result are exactly the focal
  entities present in the graph.
\<close>

theorem zero_means_default:
  "build_contextual_subgraph it clk s F (Some 0) n = build_contextual_subgraph it clk s F None n
   \<and> build_contextual_subgraph it clk s F h (Some 0) = build_contextual_subgraph it clk s F h None
   \<and> (iter_ok it \<longrightarrow>
        set (candidate_loop (graph s) 0 (it F) []) = {f \<in> set F. contains (graph s) f})
   \<and> (iter_ok it \<and> py_or n (MAX_GRAPH_NODES (cfg s)) = 0 \<longrightarrow>
        (\<exists>H. build_contextual_subgraph it clk s F h n = Inr H
              \<and> set (node_ids H) = {f \<in> set F. contains (graph s) f}))"
proof -
  have 1: "build_contextual_subgraph it clk s F (Some 0) n = build_contextual_subgraph it clk s F None n"
    by (simp add: build_contextual_subgraph_def py_or_def)
  have 2: "build_contextual_subgraph it clk s F h (Some 0) = build_contextual_subgraph it clk s F h None"
    by (simp add: build_contextual_subgraph_def py_or_def)
  have 3: "iter_ok it \<longrightarrow>
        set (candidate_loop (graph s) 0 (it F) []) = {f \<in> set F. contains (graph s) f}"
    by (simp add: candidate_loop_zero iter_ok_set)
  show ?thesis using 1 2 3 build_zero_budget[of it n s clk F h] by blast
qed

lemma ex_manager0_graph: "graph ex_manager0 = ex_graph"
  by (simp add: ex_manager0_def ex_manager_graph)

theorem zero_means_default_witness:
  "iter_ok remdups \<and> py_or (Some 0) (MAX_GRAPH_NODES (cfg ex_manager0)) = 0
   \<and> set (candidate_loop (graph ex_manager0) 0 (remdups [''A'', ''Z'']) []) = {''A''}
   \<and> (\<exists>H. build_contextual_subgraph remdups ex_clock ex_manager0 [''A'', ''Z''] (Some 0) (Some 0) = Inr H
           \<and> set (node_ids H) = {''A''})"
proof -
  have n: "py_or (Some 0) (MAX_GRAPH_NODES (cfg ex_manager0)) = 0"
    by (simp add: py_or_def ex_manager0_def)
  have f: "{f \<in> set [''A'', ''Z'']. contains (graph ex_manager0) f} = {''A''}"
    by (auto simp: contains_def ex_manager0_graph ex_graph_def node_ids_def)
  note zm = zero_means_default[of remdups ex_clock ex_manager0 "[''A'', ''Z'']" "Some 0" "Some 0"]
  have c3: "set (candidate_loop (graph ex_manager0) 0 (remdups [''A'', ''Z'']) []) = {''A''}"
    using zm iter_ok_remdups unfolding f by blast
  have c4: "\<exists>H. build_contextual_subgraph remdups ex_clock ex_manager0 [''A'', ''Z''] (Some 0) (Some 0)
                = Inr H \<and> set (node_ids H) = {''A''}"
    using zm iter_ok_remdups n unfolding f by blast
  show ?thesis using iter_ok_remdups n c3 c4 by blast
qed

lemma ex_expand_A: "expand ex_graph [''A''] = [''A'', ''B'']"
  by (simp add: expand_def adj_def ex_graph_def node_ids_def)

lemma ex_select_A1: "select_nodes remdups ex_clock ex_manager [''A''] 1 100 = [''A'', ''B'']"
  by (simp add: select_nodes_def Let_def ex_manager_graph contains_def ex_expand_A
      set_update_def set_add_def ex_importance py_take_def)
     (simp add: ex_graph_def node_ids_def)

lemma ex_build_zero_nodes:
  "build_contextual_subgraph remdups ex_clock ex_manager [''A''] (Some 1) (Some 0)
     = Inr (subgraph ex_graph [''A'', ''B''])"
  by (simp add: build_contextual_subgraph_def ex_manager_graph ex_manager_cfg default_settings_def
      py_or_def Let_def ex_select_A1 ensure_connectivity_def ex_components_AB)
     (simp add: number_of_nodes_def ex_graph_def)

text \<open>
  C4, as stated, fails. On the example graph with the default settings and the focal
  set {A}, \<open>max_hops = 0\<close> gives a result that contains B, which is one edge away from A,
  and \<open>max_nodes = 0\<close> gives a result that contains B, which is not focal.
\<close>

theorem zero_arguments_counterexample:
  "ego_nodes ex_graph ''A'' 0 = [''A'']
   \<and> build_contextual_subgraph remdups ex_clock ex_manager [''A''] (Some 0) (Some 10)
       = Inr (subgraph ex_graph [''A'', ''B''])
   \<and> build_contextual_subgraph remdups ex_clock ex_manager [''A''] (Some 1) (Some 0)
       = Inr (subgraph ex_graph [''A'', ''B''])
   \<and> node_ids (subgraph ex_graph [''A'', ''B'']) = [''A'', ''B'']"
  by (simp add: ex_build_zero_hops ex_build_zero_nodes ex_sub_AB node_ids_def)

subsection \<open>Export\<close>

lemma vis_node_ids: "map vn_id (vis_nodes (graph_to_vis_format clk s H F)) = node_ids H"
  by (simp add: graph_to_vis_format_def node_payload_def node_ids_def Let_def
      split: prod.splits)

lemma vis_node_focal:
  assumes "f \<in> set (node_ids H)"
  shows "\<exists>p \<in> set (vis_nodes (graph_to_vis_format clk s H F)). vn_id p = f \<and> is_focal p = (f \<in> set F)"
proof -
  from assms obtain data where "(f, data) \<in> set (nodes H)" by (auto simp: node_ids_def)
  then show ?thesis
    by (auto simp: graph_to_vis_format_def node_payload_def Let_def split: prod.splits
        intro!: bexI[of _ "(f, data)"])
qed

lemma build_focal_nodes:
  assumes "iter_ok it"
  shows "\<exists>fin. build_contextual_subgraph it clk s F h n = Inr (subgraph (graph s) fin)
           \<and> {f \<in> set F. contains (graph s) f} \<subseteq> set fin"
proof (cases "number_of_nodes (graph s) = 0")
  case True
  then have "build_contextual_subgraph it clk s F h n = Inr (subgraph (graph s) [])"
    by (simp add: build_contextual_subgraph_def empty_graph_def number_of_nodes_def subgraph_def)
  moreover have "{f \<in> set F. contains (graph s) f} = {}"
    using True by (simp add: contains_def number_of_nodes_def node_ids_def)
  ultimately show ?thesis by (intro exI[of _ "[]"]) simp
next
  case False
  from build_result[OF assms False, of clk F h n] obtain fin where
    b: "build_contextual_subgraph it clk s F h n = Inr (subgraph (graph s) fin)"
    and sup: "set (select_nodes it clk s F (py_or h (MAX_HOPS (cfg s)))
                    (py_or n (MAX_GRAPH_NODES (cfg s)))) \<subseteq> set fin"
    by blast
  have "set F \<subseteq> set fin"
  proof (cases "F = []")
    case True
    then show ?thesis by simp
  next
    case False
    then show ?thesis using select_nodes_focal[OF assms False] sup by blast
  qed
  then show ?thesis using b by blast
qed

text \<open>
  C8. For the subgraph \<open>H\<close> that \<open>build_contextual_subgraph\<close> returns, the node ids in the
  nodes payload of \<open>graph_to_vis_format\<close> are free of duplicates and are nodes
  of \<open>H\<close>, and every focal entity that is a node of the manager's graph has an entry in
  the payload whose \<open>is_focal\<close> is true.
\<close>

theorem vis_roundtrip:
  assumes "iter_ok it" and "distinct (node_ids (graph s))"
  shows "\<exists>H. build_contextual_subgraph it clk s F h n = Inr H
           \<and> distinct (map vn_id (vis_nodes (graph_to_vis_format clk' s H F)))
           \<and> set (map vn_id (vis_nodes (graph_to_vis_format clk' s H F))) \<subseteq> set (node_ids H)
           \<and> (\<forall>f \<in> set F. contains (graph s) f \<longrightarrow>
                 (\<exists>p \<in> set (vis_nodes (graph_to_vis_format clk' s H F)). vn_id p = f \<and> is_focal p))"
proof -
  from build_focal_nodes[OF assms(1), of clk s F h n] obtain fin where
    b: "build_contextual_subgraph it clk s F h n = Inr (subgraph (graph s) fin)"
    and foc: "{f \<in> set F. contains (graph s) f} \<subseteq> set fin"
    by blast
  define H where "H = subgraph (graph s) fin"
  have d: "distinct (node_ids H)" using assms(2) by (simp add: H_def node_ids_subgraph)
  have focal: "\<exists>p \<in> set (vis_nodes (graph_to_vis_format clk' s H F)). vn_id p = f \<and> is_focal p"
    if "f \<in> set F" and "contains (graph s) f" for f
  proof -
    have "f \<in> set (node_ids H)"
      using that foc by (auto simp: H_def set_node_ids_subgraph contains_def)
    from vis_node_focal[OF this, of clk' s F] show ?thesis using that(1) by simp
  qed
  show ?thesis
    using b d focal unfolding H_def[symmetric] by (intro exI[of _ H]) (simp add: vis_node_ids)
qed

lemma ex_vis_ids:
  "map vn_id (vis_nodes (graph_to_vis_format ex_clock ex_manager (subgraph ex_graph [''A'', ''C''])
      [''A'', ''C''])) = [''A'', ''C'']"
  by (simp add: vis_node_ids ex_sub_AC node_ids_def)

theorem vis_roundtrip_witness:
  "iter_ok remdups \<and> distinct (node_ids (graph ex_manager))
   \<and> contains (graph ex_manager) ''A'' \<and> contains (graph ex_manager) ''C''
   \<and> build_contextual_subgraph remdups ex_clock ex_manager [''A'', ''C''] (Some 2) (Some 1)
       = Inr (subgraph ex_graph [''A'', ''C''])
   \<and> map vn_id (vis_nodes (graph_to_vis_format ex_clock ex_manager
        (subgraph ex_graph [''A'', ''C'']) [''A'', ''C''])) = [''A'', ''C'']
   \<and> (\<exists>p \<in> set (vis_nodes (graph_to_vis_format ex_clock ex_manager
                          (subgraph ex_graph [''A'', ''C'']) [''A'', ''C''])).
             vn_id p = ''A'' \<and> is_focal p)
   \<and> (\<exists>p \<in> set (vis_nodes (graph_to_vis_format ex_clock ex_manager
                          (subgraph ex_graph [''A'', ''C'']) [''A'', ''C''])).
             vn_id p = ''C'' \<and> is_focal p)"
proof -
  have d: "distinct (node_ids (graph ex_manager))"
    by (simp add: ex_manager_graph ex_graph_def node_ids_def)
  have c: "contains (graph ex_manager) ''A''" "contains (graph ex_manager) ''C''"
    by (simp_all add: ex_manager_graph ex_graph_def node_ids_def contains_def)
  show ?thesis
    using vis_roundtrip[OF iter_ok_remdups d, of ex_clock "[''A'', ''C'']" "Some 2" "Some 1" ex_clock]
      iter_ok_remdups d c ex_vis_ids
    unfolding ex_build_AC by auto
qed

section \<open>Connected components and the connectivity repair\<close>

subsection \<open>Breadth-first search reaches the component\<close>

lemma adj_sym: "adj G u v \<longleftrightarrow> adj G v u"
  by (auto simp: adj_def list_ex_iff)

lemma sym_adj_rel: "sym (adj_rel G)"
  using adj_sym by (auto simp: adj_rel_def sym_def)

lemma wf_graph_adj:
  "wf_graph G \<Longrightarrow> adj G u v \<Longrightarrow> u \<in> set (node_ids G) \<and> v \<in> set (node_ids G)"
  by (auto simp: wf_graph_def adj_def list_ex_iff list_all_iff)

lemma component_of_refl: "v \<in> component_of G v"
  by (simp add: component_of_def)

lemma component_of_eq:
  assumes "u \<in> component_of G v"
  shows "component_of G u = component_of G v"
proof -
  have vu: "(v, u) \<in> (adj_rel G)\<^sup>*" using assms by (simp add: component_of_def)
  then have uv: "(u, v) \<in> (adj_rel G)\<^sup>*"
    using sym_rtrancl[OF sym_adj_rel] by (auto simp: sym_def)
  show ?thesis
    using vu uv by (auto simp: component_of_def intro: rtrancl_trans)
qed

lemma component_of_subset:
  "wf_graph G \<Longrightarrow> v \<in> set (node_ids G) \<Longrightarrow> component_of G v \<subseteq> set (node_ids G)"
proof
  fix u assume wf: "wf_graph G" and v: "v \<in> set (node_ids G)" and "u \<in> component_of G v"
  then have "(v, u) \<in> (adj_rel G)\<^sup>*" by (simp add: component_of_def)
  then show "u \<in> set (node_ids G)"
    using v by (induction rule: rtrancl_induct) (auto simp: adj_rel_def dest: wf_graph_adj[OF wf])
qed

lemma ego_nodes_sound: "u \<in> set (ego_nodes G v k) \<Longrightarrow> u \<in> component_of G v"
proof (induction k arbitrary: u)
  case 0
  then show ?case by (simp add: component_of_def)
next
  case (Suc k)
  show ?case
  proof (cases "u \<in> set (ego_nodes G v k)")
    case True
    then show ?thesis by (rule Suc.IH)
  next
    case False
    from ego_nodes_new[OF Suc.prems False] obtain w where
      w: "w \<in> set (ego_nodes G v k)" "adj G w u" by blast
    have "(v, w) \<in> (adj_rel G)\<^sup>*" using Suc.IH[OF w(1)] by (simp add: component_of_def)
    moreover have "(w, u) \<in> adj_rel G" using w(2) by (simp add: adj_rel_def)
    ultimately show ?thesis by (simp add: component_of_def)
  qed
qed

lemma set_expand_cong: "set S = set T \<Longrightarrow> set (expand G S) = set (expand G T)"
  by (simp add: set_expand)

lemma ego_nodes_stable:
  assumes "set (ego_nodes G v (Suc k)) = set (ego_nodes G v k)"
  shows "set (ego_nodes G v (k + j)) = set (ego_nodes G v k)"
proof (induction j)
  case 0
  then show ?case by simp
next
  case (Suc j)
  have "set (ego_nodes G v (k + Suc j)) = set (expand G (ego_nodes G v (k + j)))" by simp
  also have "\<dots> = set (expand G (ego_nodes G v k))" by (rule set_expand_cong[OF Suc])
  also have "\<dots> = set (ego_nodes G v k)" using assms by simp
  finally show ?case .
qed

lemma ego_nodes_grow:
  assumes "\<forall>j < k. set (ego_nodes G v (Suc j)) \<noteq> set (ego_nodes G v j)"
  shows "k < card (set (ego_nodes G v k))"
  using assms
proof (induction k)
  case 0
  then show ?case by simp
next
  case (Suc k)
  have "k < card (set (ego_nodes G v k))" using Suc by simp
  moreover have "set (ego_nodes G v k) \<subset> set (ego_nodes G v (Suc k))"
    using Suc.prems ego_nodes_mono_Suc[of G v k] by blast
  then have "card (set (ego_nodes G v k)) < card (set (ego_nodes G v (Suc k)))"
    by (intro psubset_card_mono) auto
  ultimately show ?case by simp
qed

lemma ego_nodes_fixpoint:
  assumes "v \<in> set (node_ids G)"
  shows "set (ego_nodes G v (Suc (number_of_nodes G))) = set (ego_nodes G v (number_of_nodes G))"
proof -
  let ?N = "number_of_nodes G"
  have "\<exists>j < ?N. set (ego_nodes G v (Suc j)) = set (ego_nodes G v j)"
  proof (rule ccontr)
    assume "\<not> ?thesis"
    then have "?N < card (set (ego_nodes G v ?N))" using ego_nodes_grow[of ?N G v] by blast
    moreover have "card (set (ego_nodes G v ?N)) \<le> card (set (node_ids G))"
      using ego_nodes_subset[of G v ?N] assms by (intro card_mono) auto
    moreover have "card (set (node_ids G)) \<le> ?N"
      using card_length[of "node_ids G"] by (simp add: number_of_nodes_def node_ids_def)
    ultimately show False by simp
  qed
  then obtain j where j: "j < ?N" "set (ego_nodes G v (Suc j)) = set (ego_nodes G v j)" by blast
  have a: "set (ego_nodes G v (j + (?N - j))) = set (ego_nodes G v j)"
    by (rule ego_nodes_stable[OF j(2)])
  have b: "set (ego_nodes G v (j + (Suc ?N - j))) = set (ego_nodes G v j)"
    by (rule ego_nodes_stable[OF j(2)])
  show ?thesis using a b j(1) by (simp add: Suc_diff_le)
qed

lemma plain_bfs_correct:
  assumes "wf_graph G" and "v \<in> set (node_ids G)"
  shows "set (plain_bfs G v) = component_of G v"
proof
  show "set (plain_bfs G v) \<subseteq> component_of G v"
    using ego_nodes_sound by (auto simp: plain_bfs_def)
next
  show "component_of G v \<subseteq> set (plain_bfs G v)"
  proof
    fix u assume "u \<in> component_of G v"
    then have "(v, u) \<in> (adj_rel G)\<^sup>*" by (simp add: component_of_def)
    then show "u \<in> set (plain_bfs G v)"
    proof (induction rule: rtrancl_induct)
      case base
      then show ?case by (simp add: plain_bfs_def ego_nodes_center)
    next
      case (step y z)
      then have "adj G y z" by (simp add: adj_rel_def)
      then have "z \<in> set (node_ids G)" using wf_graph_adj[OF assms(1)] by blast
      then have "z \<in> set (ego_nodes G v (Suc (number_of_nodes G)))"
        using ego_nodes_step step.IH \<open>adj G y z\<close> by (simp add: plain_bfs_def)
      then show ?case using ego_nodes_fixpoint[OF assms(2)] by (simp add: plain_bfs_def)
    qed
  qed
qed

subsection \<open>The list of components\<close>

lemma components_loop_classes:
  assumes "wf_graph G" and "set vs \<subseteq> set (node_ids G)"
    and "\<forall>x \<in> set seen. component_of G x \<subseteq> set seen"
  shows "set (map set (components_loop G vs seen)) = {component_of G v | v. v \<in> set vs \<and> v \<notin> set seen}
         \<and> distinct (map set (components_loop G vs seen))"
  using assms(2,3)
proof (induction vs arbitrary: seen)
  case Nil
  then show ?case by simp
next
  case (Cons v vs)
  have vs: "set vs \<subseteq> set (node_ids G)" and vG: "v \<in> set (node_ids G)" using Cons.prems(1) by auto
  show ?case
  proof (cases "v \<in> set seen")
    case True
    then show ?thesis using Cons.IH[OF vs Cons.prems(2)] by auto
  next
    case False
    have bfs: "set (plain_bfs G v) = component_of G v" by (rule plain_bfs_correct[OF assms(1) vG])
    have closed: "\<forall>x \<in> set (seen @ plain_bfs G v). component_of G x \<subseteq> set (seen @ plain_bfs G v)"
      using Cons.prems(2) bfs component_of_eq by auto
    note IH = Cons.IH[OF vs closed]
    have eq: "components_loop G (v # vs) seen
                = plain_bfs G v # components_loop G vs (seen @ plain_bfs G v)"
      using False by (simp add: Let_def)
    have classes: "{component_of G w | w. w \<in> set (v # vs) \<and> w \<notin> set seen}
          = insert (component_of G v)
              {component_of G w | w. w \<in> set vs \<and> w \<notin> set (seen @ plain_bfs G v)}"
    proof (intro set_eqI iffI)
      fix C assume "C \<in> {component_of G w | w. w \<in> set (v # vs) \<and> w \<notin> set seen}"
      then obtain w where w: "C = component_of G w" "w \<in> set (v # vs)" "w \<notin> set seen" by blast
      show "C \<in> insert (component_of G v)
              {component_of G w | w. w \<in> set vs \<and> w \<notin> set (seen @ plain_bfs G v)}"
      proof (cases "w \<in> component_of G v")
        case True
        then show ?thesis using w(1) component_of_eq by blast
      next
        case False
        then have "w \<noteq> v" using component_of_refl by blast
        then show ?thesis using w False bfs by auto
      qed
    next
      fix C assume "C \<in> insert (component_of G v)
              {component_of G w | w. w \<in> set vs \<and> w \<notin> set (seen @ plain_bfs G v)}"
      then show "C \<in> {component_of G w | w. w \<in> set (v # vs) \<and> w \<notin> set seen}"
        using False by auto
    qed
    have fresh: "component_of G v \<notin> set (map set (components_loop G vs (seen @ plain_bfs G v)))"
    proof
      assume "component_of G v \<in> set (map set (components_loop G vs (seen @ plain_bfs G v)))"
      then obtain w where w: "component_of G v = component_of G w"
        "w \<notin> set (seen @ plain_bfs G v)" using IH by auto
      have "w \<in> component_of G v" using w(1) component_of_refl by simp
      then show False using w(2) bfs by simp
    qed
    show ?thesis using eq IH classes fresh bfs by simp
  qed
qed

lemma connected_components_classes:
  assumes "wf_graph G"
  shows "set ` set (connected_components G) = component_of G ` set (node_ids G)"
    and "distinct (map set (connected_components G))"
proof -
  have "set (map set (components_loop G (node_ids G) []))
          = {component_of G v | v. v \<in> set (node_ids G) \<and> v \<notin> set []}
         \<and> distinct (map set (components_loop G (node_ids G) []))"
    by (rule components_loop_classes[OF assms]) simp_all
  then show "set ` set (connected_components G) = component_of G ` set (node_ids G)"
    and "distinct (map set (connected_components G))"
    by (auto simp: connected_components_def)
qed

lemma length_connected_components:
  assumes "wf_graph G"
  shows "length (connected_components G) = card (component_of G ` set (node_ids G))"
proof -
  have "length (connected_components G) = length (map set (connected_components G))" by simp
  also have "\<dots> = card (set (map set (connected_components G)))"
    using connected_components_classes(2)[OF assms] by (simp only: distinct_card)
  also have "\<dots> = card (component_of G ` set (node_ids G))"
    using connected_components_classes(1)[OF assms] by simp
  finally show ?thesis .
qed

subsection \<open>Induced subgraphs\<close>

lemma adj_subgraph: "adj (subgraph G S) u v \<longleftrightarrow> adj G u v \<and> u \<in> set S \<and> v \<in> set S"
  by (auto simp: adj_def subgraph_def list_ex_iff)

lemma wf_subgraph: "wf_graph G \<Longrightarrow> wf_graph (subgraph G S)"
  by (auto simp: wf_graph_def node_ids_subgraph list_all_iff) (auto simp: subgraph_def)

lemma adj_rel_subgraph_mono: "set A \<subseteq> set B \<Longrightarrow> adj_rel (subgraph G A) \<subseteq> adj_rel (subgraph G B)"
  by (auto simp: adj_rel_def adj_subgraph)

lemma component_of_subgraph_mono:
  "set A \<subseteq> set B \<Longrightarrow> component_of (subgraph G A) v \<subseteq> component_of (subgraph G B) v"
proof -
  assume "set A \<subseteq> set B"
  then have "(adj_rel (subgraph G A))\<^sup>* \<subseteq> (adj_rel (subgraph G B))\<^sup>*"
    by (intro rtrancl_mono adj_rel_subgraph_mono)
  then show ?thesis by (auto simp: component_of_def)
qed

lemma components_anchored:
  assumes wf: "wf_graph G" and sub: "set A \<subseteq> set B"
    and anchored: "\<forall>x \<in> set B \<inter> set (node_ids G). \<exists>y \<in> set A \<inter> set (node_ids G).
                     x \<in> component_of (subgraph G B) y"
  shows "length (connected_components (subgraph G B)) \<le> length (connected_components (subgraph G A))"
proof -
  let ?HA = "subgraph G A" and ?HB = "subgraph G B"
  define g where "g C = (\<Union>z \<in> C. component_of ?HB z)" for C
  have g: "g (component_of ?HA y) = component_of ?HB y" for y
  proof -
    have "component_of ?HB z = component_of ?HB y" if "z \<in> component_of ?HA y" for z
      using that component_of_subgraph_mono[OF sub, of G y] component_of_eq by blast
    then have eq: "\<forall>z \<in> component_of ?HA y. component_of ?HB z = component_of ?HB y"
      by blast
    have "(\<Union>z \<in> component_of ?HA y. component_of ?HB z) = component_of ?HB y"
    proof (intro equalityI subsetI)
      fix x assume "x \<in> (\<Union>z \<in> component_of ?HA y. component_of ?HB z)"
      then obtain z where "z \<in> component_of ?HA y" "x \<in> component_of ?HB z" by blast
      then show "x \<in> component_of ?HB y" using eq by simp
    next
      fix x assume "x \<in> component_of ?HB y"
      then show "x \<in> (\<Union>z \<in> component_of ?HA y. component_of ?HB z)"
        using component_of_refl[of y ?HA] by blast
    qed
    then show ?thesis by (simp only: g_def)
  qed
  have "component_of ?HB ` set (node_ids ?HB) \<subseteq> g ` (component_of ?HA ` set (node_ids ?HA))"
  proof
    fix C assume "C \<in> component_of ?HB ` set (node_ids ?HB)"
    then obtain x where x: "x \<in> set B \<inter> set (node_ids G)" "C = component_of ?HB x"
      by (auto simp: set_node_ids_subgraph)
    from anchored x(1) obtain y where y: "y \<in> set A \<inter> set (node_ids G)"
      "x \<in> component_of ?HB y" by blast
    have "C = g (component_of ?HA y)" using x(2) component_of_eq[OF y(2)] g by simp
    then show "C \<in> g ` (component_of ?HA ` set (node_ids ?HA))"
      using y(1) by (auto simp: set_node_ids_subgraph)
  qed
  then have "card (component_of ?HB ` set (node_ids ?HB))
               \<le> card (g ` (component_of ?HA ` set (node_ids ?HA)))"
    by (intro card_mono) auto
  also have "\<dots> \<le> card (component_of ?HA ` set (node_ids ?HA))"
    by (intro card_image_le) auto
  finally show ?thesis
    by (simp add: length_connected_components[OF wf_subgraph[OF wf]])
qed

subsection \<open>What the repair adds\<close>

lemma chain_take: "chain G p \<Longrightarrow> chain G (take k p)"
proof (induction G p arbitrary: k rule: chain.induct)
  case (1 G)
  then show ?case by simp
next
  case (2 G x)
  then show ?case by (cases k) simp_all
next
  case (3 G x y zs)
  show ?case
  proof (cases k)
    case 0
    then show ?thesis by simp
  next
    case (Suc j)
    have "chain G (take j (y # zs))" using 3 by simp
    then show ?thesis using 3(2) Suc by (cases j) simp_all
  qed
qed

lemma chain_subgraph: "chain G p \<Longrightarrow> set p \<subseteq> set S \<Longrightarrow> chain (subgraph G S) p"
  by (induction G p rule: chain.induct) (simp_all add: adj_subgraph)

lemma chain_reach: "chain G p \<Longrightarrow> x \<in> set p \<Longrightarrow> x \<in> component_of G (hd p)"
proof (induction G p rule: chain.induct)
  case (1 G)
  then show ?case by simp
next
  case (2 G y)
  then show ?case by (simp add: component_of_refl)
next
  case (3 G a b zs)
  show ?case
  proof (cases "x = a")
    case True
    then show ?thesis by (simp add: component_of_refl)
  next
    case False
    then have "x \<in> component_of G b" using 3 by simp
    moreover have "(a, b) \<in> adj_rel G" using 3(2) by (simp add: adj_rel_def)
    ultimately show ?thesis
      by (simp add: component_of_def converse_rtrancl_into_rtrancl)
  qed
qed

lemma min_by_in: "min_by f b xs \<in> set (b # xs)"
  by (induction xs arbitrary: b) (auto split: if_splits)

lemma shortest_path_safe_last:
  "shortest_path_safe s src tgt = [src] \<or> last (shortest_path_safe s src tgt) = tgt"
proof (cases "shortest_path (graph s) src tgt")
  case (Inl e)
  then show ?thesis by (simp add: shortest_path_safe_def)
next
  case (Inr p)
  then obtain d where d: "find_dist (graph s) src tgt (number_of_nodes (graph s)) 0 = Some d"
    and p: "p = path_to (graph s) src d tgt"
    by (auto simp: shortest_path_def shortest_path_length_def split: if_splits option.splits)
  from find_dist_Some[OF d]
  have "tgt \<in> set (ego_nodes (graph s) src d)" "\<forall>j < d. tgt \<notin> set (ego_nodes (graph s) src j)"
    by auto
  from path_to_props[OF this] show ?thesis using Inr p
    by (simp add: shortest_path_safe_def Let_def)
qed

lemma path_nodes_reach_target:
  assumes "x \<in> set (shortest_path_safe s src tgt)"
  shows "x = src \<or> x \<in> component_of (graph s) tgt"
proof (cases "shortest_path_safe s src tgt = [src]")
  case True
  then show ?thesis using assms by simp
next
  case False
  let ?p = "shortest_path_safe s src tgt"
  have l: "last ?p = tgt" using shortest_path_safe_last[of s src tgt] False by simp
  have ne: "?p \<noteq> []" by (rule shortest_path_safe_nonempty)
  have c: "chain (graph s) ?p" by (rule shortest_path_safe_chain)
  have "x \<in> component_of (graph s) (hd ?p)" by (rule chain_reach[OF c assms])
  moreover have "tgt \<in> component_of (graph s) (hd ?p)"
    using chain_reach[OF c, of tgt] l ne last_in_set[of ?p] by simp
  ultimately show ?thesis using component_of_eq by blast
qed

lemma repair_loop_anchored:
  assumes "iter_ok it"
    and "\<forall>c \<in> set comps. c \<noteq> [] \<and> set c \<subseteq> set sel \<inter> set (node_ids (graph s))"
    and "repair_loop it s f fs base n comps sel = Inr fin"
  shows "(\<forall>x \<in> set fin \<inter> set (node_ids (graph s)). \<exists>y \<in> set sel \<inter> set (node_ids (graph s)).
            x \<in> component_of (subgraph (graph s) fin) y)
         \<and> (\<forall>x \<in> set fin. x \<in> set sel \<or> (\<exists>t \<in> set (f # fs). x \<in> component_of (graph s) t))"
  using assms(2,3)
proof (induction comps arbitrary: sel)
  case Nil
  then show ?case using component_of_refl by auto
next
  case (Cons c comps)
  let ?G = "graph s"
  show ?case
  proof (cases "set c = set base")
    case True
    then show ?thesis using Cons.IH[of sel] Cons.prems by simp
  next
    case False
    have cne: "c \<noteq> []" and csub: "set c \<subseteq> set sel \<inter> set (node_ids ?G)" using Cons.prems(1) by simp_all
    obtain src rest where itc: "it c = src # rest"
      using iter_ok_nonempty[OF assms(1) cne] by (cases "it c") auto
    then have "src \<in> set c" using iter_ok_set[OF assms(1), of c] by auto
    then have src: "src \<in> set sel" "src \<in> set (node_ids ?G)" using csub by auto
    define tgt where "tgt = min_by (\<lambda>node. shortest_path_length_safe s src node) f fs"
    define path where "path = shortest_path_safe s src tgt"
    have tgt_in: "tgt \<in> set (f # fs)" unfolding tgt_def by (rule min_by_in)
    obtain sel' b where ap: "add_path path sel n = (sel', b)" by (cases "add_path path sel n")
    from add_path_prefix[of path sel n] obtain k where
      k: "set sel' = set sel \<union> set (take k path)" using ap by auto
    have step: "repair_loop it s f fs base n (c # comps) sel =
        (if b then Inr sel' else repair_loop it s f fs base n comps sel')"
      using False itc ap by (simp add: tgt_def path_def Let_def)
    have comps': "\<forall>c \<in> set comps. c \<noteq> [] \<and> set c \<subseteq> set sel' \<inter> set (node_ids ?G)"
      using Cons.prems(1) k by auto
    have mid: "(\<forall>x \<in> set fin \<inter> set (node_ids ?G). \<exists>y \<in> set sel' \<inter> set (node_ids ?G).
            x \<in> component_of (subgraph ?G fin) y)
         \<and> (\<forall>x \<in> set fin. x \<in> set sel' \<or> (\<exists>t \<in> set (f # fs). x \<in> component_of ?G t))"
      and sup: "set sel' \<subseteq> set fin"
    proof -
      show "(\<forall>x \<in> set fin \<inter> set (node_ids ?G). \<exists>y \<in> set sel' \<inter> set (node_ids ?G).
            x \<in> component_of (subgraph ?G fin) y)
         \<and> (\<forall>x \<in> set fin. x \<in> set sel' \<or> (\<exists>t \<in> set (f # fs). x \<in> component_of ?G t))"
      proof (cases b)
        case True
        then have "fin = sel'" using step Cons.prems(2) by simp
        then show ?thesis using component_of_refl by auto
      next
        case nb: False
        then have "repair_loop it s f fs base n comps sel' = Inr fin"
          using step Cons.prems(2) by simp
        from Cons.IH[OF comps' this] show ?thesis .
      qed
      show "set sel' \<subseteq> set fin"
      proof (cases b)
        case True
        then show ?thesis using step Cons.prems(2) by simp
      next
        case nb: False
        then have r: "repair_loop it s f fs base n comps sel' = Inr fin"
          using step Cons.prems(2) by simp
        have "\<forall>c \<in> set comps. c \<noteq> [] \<and> set c \<subseteq> set sel'" using comps' by auto
        from repair_loop_result[OF assms(1) this, of s f fs base n] show ?thesis using r by auto
      qed
    qed
    have pchain: "chain ?G (take k path)"
      unfolding path_def by (intro chain_take shortest_path_safe_chain)
    have psub: "set (take k path) \<subseteq> set fin" using k sup by auto
    have phd: "take k path \<noteq> [] \<Longrightarrow> hd (take k path) = src"
      by (cases k) (simp_all add: path_def shortest_path_safe_hd hd_take)
    have new_anchor: "y \<in> component_of (subgraph ?G fin) src" if "y \<in> set (take k path)" for y
    proof -
      have "take k path \<noteq> []"
        using that by (metis empty_iff empty_set)
      then have h: "hd (take k path) = src" by (rule phd)
      from chain_reach[OF chain_subgraph[OF pchain psub] that] show ?thesis
        unfolding h .
    qed
    have A: "\<exists>y \<in> set sel \<inter> set (node_ids ?G). x \<in> component_of (subgraph ?G fin) y"
      if x: "x \<in> set fin \<inter> set (node_ids ?G)" for x
    proof -
      from mid x obtain y' where y': "y' \<in> set sel' \<inter> set (node_ids ?G)"
        "x \<in> component_of (subgraph ?G fin) y'" by blast
      show ?thesis
      proof (cases "y' \<in> set sel")
        case True
        then show ?thesis using y' by blast
      next
        case False
        then have "y' \<in> set (take k path)" using y'(1) k by auto
        then have "y' \<in> component_of (subgraph ?G fin) src" by (rule new_anchor)
        then have "x \<in> component_of (subgraph ?G fin) src" using y'(2) component_of_eq by blast
        then show ?thesis using src by blast
      qed
    qed
    have B: "x \<in> set sel \<or> (\<exists>t \<in> set (f # fs). x \<in> component_of ?G t)" if x: "x \<in> set fin" for x
    proof -
      from mid x consider "x \<in> set sel'" | "\<exists>t \<in> set (f # fs). x \<in> component_of ?G t" by blast
      then show ?thesis
      proof cases
        case 1
        show ?thesis
        proof (cases "x \<in> set sel")
          case True
          then show ?thesis by simp
        next
          case False
          then have "x \<in> set (take k path)" using 1 k by auto
          then have "x \<in> set (shortest_path_safe s src tgt)"
            unfolding path_def by (rule in_set_takeD)
          from path_nodes_reach_target[OF this] show ?thesis using src(1) tgt_in by blast
        qed
      next
        case 2
        then show ?thesis by simp
      qed
    qed
    show ?thesis using A B by blast
  qed
qed

lemma find_dist_None:
  "find_dist G src dst fuel k = None \<Longrightarrow> dst \<notin> set (ego_nodes G src (k + fuel))"
proof (induction fuel arbitrary: k)
  case 0
  then show ?case by (simp split: if_splits)
next
  case (Suc fuel)
  then have "find_dist G src dst fuel (Suc k) = None" by (simp split: if_splits)
  from Suc.IH[OF this] show ?case by simp
qed

lemma no_path_unreachable:
  assumes "wf_graph G" and "shortest_path_length G v t = Inl NetworkXNoPath"
  shows "t \<notin> component_of G v"
proof -
  have v: "v \<in> set (node_ids G)"
    and none: "find_dist G v t (number_of_nodes G) 0 = None"
    using assms(2) by (auto simp: shortest_path_length_def contains_def split: if_splits option.splits)
  have "t \<notin> set (plain_bfs G v)" using find_dist_None[OF none] by (simp add: plain_bfs_def)
  then show ?thesis by (simp add: plain_bfs_correct[OF assms(1) v])
qed

lemma ensure_connectivity_anchored:
  assumes "iter_ok it"
    and "ensure_connectivity it s (subgraph (graph s) sel) sel F n = Inr fin"
  shows "(\<forall>x \<in> set fin \<inter> set (node_ids (graph s)). \<exists>y \<in> set sel \<inter> set (node_ids (graph s)).
            x \<in> component_of (subgraph (graph s) fin) y)
         \<and> (\<forall>x \<in> set fin. x \<in> set sel
               \<or> (\<exists>t \<in> set F. contains (graph s) t \<and> x \<in> component_of (graph s) t))"
proof -
  let ?G = "graph s"
  define comps where "comps = connected_components (subgraph ?G sel)"
  define foc where "foc = filter (contains ?G) (it F)"
  have ec: "ensure_connectivity it s (subgraph ?G sel) sel F n =
     (if F = [] then Inr sel
      else if length comps \<le> 1 then Inr sel
      else case foc of [] \<Rightarrow> Inr sel
           | f # fs \<Rightarrow> (case comps of [] \<Rightarrow> Inr sel
               | c # cs \<Rightarrow> repair_loop it s f fs
                    (max_by (\<lambda>comp. length (filter (\<lambda>n. n \<in> set F) comp)) c cs) n comps sel))"
    unfolding ensure_connectivity_def Let_def comps_def foc_def by (rule refl)
  show ?thesis
  proof (cases "F = [] \<or> length comps \<le> 1 \<or> foc = []")
    case True
    then have "fin = sel" using assms(2) unfolding ec by (auto split: if_splits)
    then show ?thesis using component_of_refl by auto
  next
    case False
    then obtain f fs where f: "foc = f # fs" by (cases foc) auto
    from False obtain c cs where c: "comps = c # cs" by (cases comps) auto
    define base where "base = max_by (\<lambda>comp. length (filter (\<lambda>n. n \<in> set F) comp)) c cs"
    have "ensure_connectivity it s (subgraph ?G sel) sel F n = repair_loop it s f fs base n comps sel"
      unfolding ec base_def using False f c by (simp del: repair_loop.simps)
    then have rl: "repair_loop it s f fs base n comps sel = Inr fin" using assms(2) by simp
    have cp: "\<forall>c \<in> set comps. c \<noteq> [] \<and> set c \<subseteq> set sel \<inter> set (node_ids ?G)"
      unfolding comps_def using connected_components_props[of _ "subgraph ?G sel"]
      by (auto simp: set_node_ids_subgraph)
    have focal: "t \<in> set F \<and> contains ?G t" if "t \<in> set (f # fs)" for t
    proof -
      have "t \<in> set (filter (contains ?G) (it F))" using that f by (simp add: foc_def)
      then show ?thesis using iter_ok_set[OF assms(1)] by simp
    qed
    from repair_loop_anchored[OF assms(1) cp rl] show ?thesis using focal by blast
  qed
qed

lemma component_kept:
  assumes wf: "wf_graph G" and sub: "set sel \<subseteq> set fin"
    and added: "\<forall>x \<in> set fin. x \<in> set sel \<or> (\<exists>t \<in> T. x \<in> component_of G t)"
    and c: "c \<in> set (connected_components (subgraph G sel))"
    and far: "\<forall>v \<in> set c. \<forall>t \<in> T. v \<notin> component_of G t"
  shows "set c \<in> set ` set (connected_components (subgraph G fin))"
proof -
  let ?H1 = "subgraph G sel" and ?H2 = "subgraph G fin"
  have "set c \<in> component_of ?H1 ` set (node_ids ?H1)"
    using connected_components_classes(1)[OF wf_subgraph[OF wf], of sel] c by blast
  then obtain v where v: "v \<in> set (node_ids ?H1)" "set c = component_of ?H1 v" by blast
  have sub1: "component_of ?H1 v \<subseteq> set sel"
    using component_of_subset[OF wf_subgraph[OF wf] v(1)] by (auto simp: set_node_ids_subgraph)
  have "component_of ?H2 v \<subseteq> component_of ?H1 v"
  proof
    fix u assume "u \<in> component_of ?H2 v"
    then have "(v, u) \<in> (adj_rel ?H2)\<^sup>*" by (simp add: component_of_def)
    then show "u \<in> component_of ?H1 v"
    proof (induction rule: rtrancl_induct)
      case base
      then show ?case by (rule component_of_refl)
    next
      case (step y z)
      have adj: "adj G y z" and z: "z \<in> set fin"
        using step.hyps(2) by (simp_all add: adj_rel_def adj_subgraph)
      have y: "y \<in> set sel" using step.IH sub1 by blast
      have "z \<in> set sel"
      proof (rule ccontr)
        assume "z \<notin> set sel"
        then obtain t where t: "t \<in> T" "z \<in> component_of G t" using added z by blast
        have "(t, z) \<in> (adj_rel G)\<^sup>*" using t(2) by (simp add: component_of_def)
        moreover have "(z, y) \<in> adj_rel G" using adj adj_sym by (simp add: adj_rel_def)
        ultimately have "y \<in> component_of G t" by (simp add: component_of_def)
        moreover have "y \<in> set c" using step.IH v(2) by simp
        ultimately show False using far t(1) by blast
      qed
      then have "(y, z) \<in> adj_rel ?H1" using adj y by (simp add: adj_rel_def adj_subgraph)
      then show ?case using step.IH by (simp add: component_of_def)
    qed
  qed
  then have "component_of ?H2 v = set c"
    using component_of_subgraph_mono[OF sub, of G v] v(2) by blast
  moreover have "v \<in> set (node_ids ?H2)" using v(1) sub by (auto simp: set_node_ids_subgraph)
  ultimately have "set c \<in> component_of ?H2 ` set (node_ids ?H2)" by blast
  then show ?thesis using connected_components_classes(1)[OF wf_subgraph[OF wf], of fin] by simp
qed

lemma build_repair:
  assumes "iter_ok it" and "wf_graph (graph s)"
  shows "\<exists>fin. build_contextual_subgraph it clk s F h n = Inr (subgraph (graph s) fin)
           \<and> ensure_connectivity it s
                (subgraph (graph s) (select_nodes it clk s F (py_or h (MAX_HOPS (cfg s)))
                    (py_or n (MAX_GRAPH_NODES (cfg s)))))
                (select_nodes it clk s F (py_or h (MAX_HOPS (cfg s)))
                    (py_or n (MAX_GRAPH_NODES (cfg s)))) F (py_or n (MAX_GRAPH_NODES (cfg s)))
              = Inr fin"
proof -
  define sel where "sel = select_nodes it clk s F (py_or h (MAX_HOPS (cfg s)))
                    (py_or n (MAX_GRAPH_NODES (cfg s)))"
  define m where "m = py_or n (MAX_GRAPH_NODES (cfg s))"
  from ensure_connectivity_result[OF assms(1), of s sel F m] obtain fin where
    fin: "ensure_connectivity it s (subgraph (graph s) sel) sel F m = Inr fin"
      "set sel \<subseteq> set fin" by blast
  show ?thesis
  proof (cases "number_of_nodes (graph s) = 0")
    case True
    then have n0: "nodes (graph s) = []" by (simp add: number_of_nodes_def)
    then have e0: "edges (graph s) = []"
      using assms(2) by (cases "edges (graph s)") (simp_all add: wf_graph_def node_ids_def)
    have "subgraph (graph s) fin = empty_graph"
      by (simp add: subgraph_def empty_graph_def n0 e0)
    then have "build_contextual_subgraph it clk s F h n = Inr (subgraph (graph s) fin)"
      using True by (simp add: build_contextual_subgraph_def)
    then show ?thesis using fin(1) unfolding sel_def m_def by blast
  next
    case False
    have "build_contextual_subgraph it clk s F h n = Inr (subgraph (graph s) fin)"
      using False fin(1) by (simp add: build_contextual_subgraph_def Let_def sel_def m_def)
    then show ?thesis using fin(1) unfolding sel_def m_def by blast
  qed
qed

text \<open>
  C5. \<open>build_contextual_subgraph\<close> raises no error, and the subgraph it returns has at
  most as many connected components as the induced subgraph on the selection handed to
  the connectivity repair; this holds for every node budget, as each node the repair adds
  lies on a path that starts in the selection. A component of the selection from which no
  focal entity of the graph can be reached is still a component of the result.
\<close>

theorem repair_components:
  assumes "iter_ok it" and "wf_graph (graph s)"
  shows "\<exists>H. build_contextual_subgraph it clk s F h n = Inr H
     \<and> length (connected_components H)
         \<le> length (connected_components (subgraph (graph s)
              (select_nodes it clk s F (py_or h (MAX_HOPS (cfg s)))
                 (py_or n (MAX_GRAPH_NODES (cfg s))))))
     \<and> (\<forall>c \<in> set (connected_components (subgraph (graph s)
              (select_nodes it clk s F (py_or h (MAX_HOPS (cfg s)))
                 (py_or n (MAX_GRAPH_NODES (cfg s)))))).
           (\<forall>v \<in> set c. \<forall>f \<in> set F. contains (graph s) f \<longrightarrow>
               shortest_path_length (graph s) f v = Inl NetworkXNoPath)
           \<longrightarrow> set c \<in> set ` set (connected_components H))"
proof -
  let ?G = "graph s"
  define sel where "sel = select_nodes it clk s F (py_or h (MAX_HOPS (cfg s)))
                    (py_or n (MAX_GRAPH_NODES (cfg s)))"
  from build_repair[OF assms, of clk F h n] obtain fin where
    b: "build_contextual_subgraph it clk s F h n = Inr (subgraph ?G fin)"
    and ec: "ensure_connectivity it s (subgraph ?G sel) sel F (py_or n (MAX_GRAPH_NODES (cfg s)))
               = Inr fin"
    unfolding sel_def by blast
  have sup: "set sel \<subseteq> set fin"
    using ensure_connectivity_result[OF assms(1), of s sel F "py_or n (MAX_GRAPH_NODES (cfg s))"] ec
    by auto
  from ensure_connectivity_anchored[OF assms(1) ec]
  have anchored: "\<forall>x \<in> set fin \<inter> set (node_ids ?G). \<exists>y \<in> set sel \<inter> set (node_ids ?G).
            x \<in> component_of (subgraph ?G fin) y"
    and added: "\<forall>x \<in> set fin. x \<in> set sel
               \<or> (\<exists>t \<in> {t \<in> set F. contains ?G t}. x \<in> component_of ?G t)"
    by blast+
  have len: "length (connected_components (subgraph ?G fin))
               \<le> length (connected_components (subgraph ?G sel))"
    by (rule components_anchored[OF assms(2) sup anchored])
  have kept: "set c \<in> set ` set (connected_components (subgraph ?G fin))"
    if c: "c \<in> set (connected_components (subgraph ?G sel))"
      and far: "\<forall>v \<in> set c. \<forall>f \<in> set F. contains ?G f \<longrightarrow>
               shortest_path_length ?G f v = Inl NetworkXNoPath" for c
  proof -
    have "\<forall>v \<in> set c. \<forall>t \<in> {t \<in> set F. contains ?G t}. v \<notin> component_of ?G t"
      using far no_path_unreachable[OF assms(2)] by blast
    from component_kept[OF assms(2) sup added c this] show ?thesis .
  qed
  show ?thesis
    using b len kept unfolding sel_def[symmetric] by (intro exI[of _ "subgraph ?G fin"]) blast
qed

lemma ex_wf: "wf_graph (graph ex_manager)"
  by (simp add: ex_manager_graph ex_graph_def wf_graph_def node_ids_def)

lemma ex_select_Z: "select_nodes remdups ex_clock ex_manager [''Z''] 2 3 = [''A'', ''B'', ''C'', ''Z'']"
  by (simp add: select_nodes_def Let_def ex_manager_graph contains_def ex_sorted
      set_update_def set_add_def ex_importance py_take_def)
     (simp add: ex_graph_def node_ids_def)

lemma ex_sub_Z:
  "subgraph ex_graph [''A'', ''B'', ''C'', ''Z''] =
     \<lparr>nodes = [(''A'', []), (''B'', []), (''C'', [])],
      edges = [\<lparr>source = ''A'', target = ''B'', edge_attrs = [], weight = Some 1\<rparr>]\<rparr>"
  by (simp add: subgraph_def ex_graph_def)

lemma ex_components_Z:
  "connected_components (subgraph ex_graph [''A'', ''B'', ''C'', ''Z'']) = [[''A'', ''B''], [''C'']]"
  by (simp add: ex_sub_Z connected_components_def node_ids_def plain_bfs_def number_of_nodes_def
      eval_nat_numeral expand_def adj_def Let_def)

lemma ex_build_Z:
  "build_contextual_subgraph remdups ex_clock ex_manager [''Z''] None (Some 3)
     = Inr (subgraph ex_graph [''A'', ''B'', ''C'', ''Z''])"
  by (simp add: build_contextual_subgraph_def ex_manager_graph ex_manager_cfg default_settings_def
      py_or_def Let_def ex_select_Z ensure_connectivity_def ex_components_Z contains_def)
     (simp add: number_of_nodes_def ex_graph_def node_ids_def)

theorem repair_components_witness:
  "iter_ok remdups \<and> wf_graph (graph ex_manager)
   \<and> build_contextual_subgraph remdups ex_clock ex_manager [''Z''] None (Some 3)
       = Inr (subgraph ex_graph [''A'', ''B'', ''C'', ''Z''])
   \<and> connected_components (subgraph ex_graph [''A'', ''B'', ''C'', ''Z'']) = [[''A'', ''B''], [''C'']]
   \<and> length (connected_components (subgraph ex_graph [''A'', ''B'', ''C'', ''Z'']))
       \<le> length (connected_components (subgraph (graph ex_manager)
             (select_nodes remdups ex_clock ex_manager [''Z''] 2 3)))
   \<and> \<not> contains (graph ex_manager) ''Z''
   \<and> set [''C''] \<in> set ` set (connected_components (subgraph ex_graph [''A'', ''B'', ''C'', ''Z'']))"
proof -
  have nz: "\<not> contains (graph ex_manager) ''Z''"
    by (simp add: contains_def ex_manager_graph ex_graph_def node_ids_def)
  have p: "py_or None (MAX_HOPS (cfg ex_manager)) = 2" "py_or (Some 3) (MAX_GRAPH_NODES (cfg ex_manager)) = 3"
    by (simp_all add: py_or_def ex_manager_cfg default_settings_def)
  from repair_components[OF iter_ok_remdups ex_wf, of ex_clock "[''Z'']" None "Some 3"]
  obtain H where H: "build_contextual_subgraph remdups ex_clock ex_manager [''Z''] None (Some 3) = Inr H"
    and len: "length (connected_components H)
         \<le> length (connected_components (subgraph (graph ex_manager)
              (select_nodes remdups ex_clock ex_manager [''Z''] 2 3)))"
    and kept: "\<forall>c \<in> set (connected_components (subgraph (graph ex_manager)
              (select_nodes remdups ex_clock ex_manager [''Z''] 2 3))).
           (\<forall>v \<in> set c. \<forall>f \<in> set [''Z'']. contains (graph ex_manager) f \<longrightarrow>
               shortest_path_length (graph ex_manager) f v = Inl NetworkXNoPath)
           \<longrightarrow> set c \<in> set ` set (connected_components H)"
    unfolding p by blast
  have HH: "H = subgraph ex_graph [''A'', ''B'', ''C'', ''Z'']" using H ex_build_Z by simp
  have cin: "[''C''] \<in> set (connected_components (subgraph (graph ex_manager)
              (select_nodes remdups ex_clock ex_manager [''Z''] 2 3)))"
    by (simp add: ex_select_Z ex_manager_graph ex_components_Z)
  have "set [''C''] \<in> set ` set (connected_components H)"
    using kept cin nz by fastforce
  then show ?thesis
    using iter_ok_remdups ex_wf ex_build_Z ex_components_Z len nz unfolding HH by blast
qed

end
